theory Spec2Isabelle
  imports Complex_Main "HOL-Library.Word"
begin

section \<open>The frame muxer of the ffmpeg producer\<close>

text \<open>
  A shallow embedding of \<^verbatim>\<open>modules/ffmpeg/producer/frame_muxer.cpp\<close>: the cadence
  resolver \<^verbatim>\<open>get_display_mode\<close> and the class \<^verbatim>\<open>frame_muxer::implementation\<close> with
  its push, pop, readiness and pump operations.

  Frame rates are C++ \<^verbatim>\<open>double\<close>s; they are modelled by exact real numbers (rounding and
  NaN are not modelled). The \<^verbatim>\<open>size_t\<close> counters are natural numbers (no wrap-around).
\<close>

subsection \<open>Enumerations\<close>

text \<open>
  \<^verbatim>\<open>core::video_mode::type\<close> is declared outside this file; the muxer only tests values
  for being (or not being) \<^verbatim>\<open>progressive\<close>, \<^verbatim>\<open>upper\<close> or \<^verbatim>\<open>lower\<close>.
\<close>

datatype video_mode = progressive | lower | upper

text \<open>
  \<^verbatim>\<open>display_mode::type\<close>. The enumerators are capitalised here because the combiner
  member functions \<^verbatim>\<open>simple\<close>, \<^verbatim>\<open>duplicate\<close>, \<^verbatim>\<open>half\<close> and \<^verbatim>\<open>interlace\<close> carry the
  same names.
\<close>

datatype display_mode =
    Simple
  | Duplicate
  | Half
  | Interlace
  | Deinterlace_bob
  | Deinterlace_bob_reinterlace
  | Deinterlace
  | Count
  | Invalid

fun print :: "display_mode \<Rightarrow> string" where
  "print Simple = ''simple''"
| "print Duplicate = ''duplicate''"
| "print Half = ''half''"
| "print Interlace = ''interlace''"
| "print Deinterlace_bob = ''deinterlace_bob''"
| "print Deinterlace_bob_reinterlace = ''deinterlace_bob_reinterlace''"
| "print Deinterlace = ''deinterlace''"
| "print _ = ''invalid''"

subsection \<open>The cadence resolver\<close>

definition epsilon :: real where
  "epsilon = 2.0"

definition get_display_mode :: "video_mode \<Rightarrow> real \<Rightarrow> video_mode \<Rightarrow> real \<Rightarrow> display_mode" where
  "get_display_mode in_mode in_fps out_mode out_fps =
     (if \<bar>in_fps - out_fps\<bar> < epsilon then
        (if in_mode \<noteq> progressive \<and> out_mode = progressive then Deinterlace
         else Simple)
      else if \<bar>in_fps / 2.0 - out_fps\<bar> < epsilon then
        (if in_mode \<noteq> progressive then Invalid
         else if out_mode \<noteq> progressive then Interlace
         else Half)
      else if \<bar>in_fps - out_fps / 2.0\<bar> < epsilon then
        (if out_mode \<noteq> progressive then Invalid
         else if in_mode \<noteq> progressive then Deinterlace_bob
         else Duplicate)
      else Invalid)"

subsection \<open>The rule table of the specification\<close>

text \<open>
  The table of section 4.1 as data, row by row and in the order of the specification.
  A row names a rate relation, a pattern for the source scan mode, a pattern for the
  target scan mode and a policy. The policy of a combination is that of the first row
  that covers it, and \<open>Invalid\<close> when no row does.

  \<open>rate_relation_holds\<close> reads the rate relations as the specification words them, with
  the absolute tolerance 2.0 on the relation named: the rates are equal, the source rate
  is twice the target rate, the target rate is twice the source rate.
  \<open>halved_rate_relation_holds\<close> is the amended reading: the tolerance 2.0 is applied
  after halving the larger rate, so that the doubled rate may be off by up to 4.
\<close>

datatype rate_relation = rates_equal | source_twice_target | target_twice_source | no_ratio_matches

datatype scan_pattern = scan_progressive | scan_non_progressive | scan_any

type_synonym table_row = "rate_relation \<times> scan_pattern \<times> scan_pattern \<times> display_mode"

definition within_tolerance :: "real \<Rightarrow> real \<Rightarrow> bool" where
  "within_tolerance a b = (\<bar>a - b\<bar> < 2.0)"

fun rate_relation_holds :: "rate_relation \<Rightarrow> real \<Rightarrow> real \<Rightarrow> bool" where
  "rate_relation_holds rates_equal src tgt = within_tolerance src tgt"
| "rate_relation_holds source_twice_target src tgt = within_tolerance src (2 * tgt)"
| "rate_relation_holds target_twice_source src tgt = within_tolerance tgt (2 * src)"
| "rate_relation_holds no_ratio_matches src tgt =
     (\<not> within_tolerance src tgt \<and> \<not> within_tolerance src (2 * tgt)
      \<and> \<not> within_tolerance tgt (2 * src))"

fun halved_rate_relation_holds :: "rate_relation \<Rightarrow> real \<Rightarrow> real \<Rightarrow> bool" where
  "halved_rate_relation_holds rates_equal src tgt = within_tolerance src tgt"
| "halved_rate_relation_holds source_twice_target src tgt = within_tolerance (src / 2) tgt"
| "halved_rate_relation_holds target_twice_source src tgt = within_tolerance src (tgt / 2)"
| "halved_rate_relation_holds no_ratio_matches src tgt =
     (\<not> within_tolerance src tgt \<and> \<not> within_tolerance (src / 2) tgt
      \<and> \<not> within_tolerance src (tgt / 2))"

fun scan_matches :: "scan_pattern \<Rightarrow> video_mode \<Rightarrow> bool" where
  "scan_matches scan_progressive m = (m = progressive)"
| "scan_matches scan_non_progressive m = (m \<noteq> progressive)"
| "scan_matches scan_any m = True"

definition rule_table :: "table_row list" where
  "rule_table =
     [(rates_equal, scan_non_progressive, scan_progressive, Deinterlace),
      (rates_equal, scan_any, scan_any, Simple),
      (source_twice_target, scan_progressive, scan_non_progressive, Interlace),
      (source_twice_target, scan_progressive, scan_progressive, Half),
      (source_twice_target, scan_non_progressive, scan_any, Invalid),
      (target_twice_source, scan_progressive, scan_progressive, Duplicate),
      (target_twice_source, scan_non_progressive, scan_progressive, Deinterlace_bob),
      (target_twice_source, scan_any, scan_non_progressive, Invalid),
      (no_ratio_matches, scan_any, scan_any, Invalid)]"

text \<open>The first argument of \<open>row_covers\<close> and \<open>table_policy\<close> is the reading of the rate relations.\<close>

fun row_covers ::
  "(rate_relation \<Rightarrow> real \<Rightarrow> real \<Rightarrow> bool) \<Rightarrow> video_mode \<Rightarrow> real \<Rightarrow> video_mode \<Rightarrow> real
     \<Rightarrow> table_row \<Rightarrow> bool" where
  "row_covers holds_rel in_mode in_fps out_mode out_fps (rel, src, tgt, policy) =
     (holds_rel rel in_fps out_fps \<and> scan_matches src in_mode \<and> scan_matches tgt out_mode)"

fun table_policy ::
  "(rate_relation \<Rightarrow> real \<Rightarrow> real \<Rightarrow> bool) \<Rightarrow> table_row list \<Rightarrow> video_mode \<Rightarrow> real
     \<Rightarrow> video_mode \<Rightarrow> real \<Rightarrow> display_mode" where
  "table_policy holds_rel [] in_mode in_fps out_mode out_fps = Invalid"
| "table_policy holds_rel (row # rows) in_mode in_fps out_mode out_fps =
     (if row_covers holds_rel in_mode in_fps out_mode out_fps row then snd (snd (snd row))
      else table_policy holds_rel rows in_mode in_fps out_mode out_fps)"

subsection \<open>Pictures, frames and the format descriptor\<close>

text \<open>Audio samples are \<^verbatim>\<open>int16_t\<close>; picture content is a list of byte values.\<close>

type_synonym sample = "16 word"

type_synonym pixels = "nat list"

text \<open>
  \<^verbatim>\<open>core::video_format_desc\<close>: the fields the muxer reads. The target height is a
  \<^verbatim>\<open>size_t\<close>, a natural number here.
\<close>

record video_format_desc =
  fmt_mode :: video_mode
  fmt_fps :: real
  fmt_height :: nat
  audio_samples_per_frame :: nat

text \<open>
  \<^verbatim>\<open>AVFrame\<close>: \<open>data0\<close> is \<^verbatim>\<open>data[0]\<close> (\<open>None\<close> for \<^verbatim>\<open>nullptr\<close>), \<open>av_height\<close> is
  \<^verbatim>\<open>height\<close>, and \<open>av_mode\<close> is what \<^verbatim>\<open>get_mode(*video_frame)\<close> returns.
\<close>

record av_frame =
  data0 :: "pixels option"
  av_height :: int
  av_mode :: video_mode

text \<open>
  \<^verbatim>\<open>static_cast<int>\<close> of a \<^verbatim>\<open>size_t\<close>: the value modulo \<open>2 ^ 32\<close>, read as a signed
  32-bit integer.
\<close>

definition static_cast_int :: "nat \<Rightarrow> int" where
  "static_cast_int n =
     (let m = int n mod 2 ^ 32 in if m < 2 ^ 31 then m else m - 2 ^ 32)"

text \<open>
  \<^verbatim>\<open>core::write_frame\<close>: the picture, its scan mode (\<^verbatim>\<open>get_type()\<close>), the fill
  translation of its image transform and its audio data.
\<close>

record write_frame =
  image :: "pixels option"
  frame_type :: video_mode
  plane_height :: int
  fill_translation :: "real \<times> real"
  audio_data :: "sample list"

text \<open>
  Frames are shared objects (\<^verbatim>\<open>safe_ptr\<close>). The model keeps every \<^verbatim>\<open>write_frame\<close> the
  muxer creates in a store, a list addressed by index; queues and output frames hold
  addresses. A \<^verbatim>\<open>basic_frame\<close> of the output queue is a write frame or the composite
  that \<^verbatim>\<open>basic_frame::interlace\<close> builds from two of them.
\<close>

datatype basic_frame = Frame nat | Interlaced nat nat video_mode

datatype log_entry =
    Log_video_frame_count nat
  | Log_audio_chunk_count nat
  | Log_frame_muxer string
  | Log_truncating nat nat

text \<open>
  \<open>invalid_operation\<close> is the exception of \<^verbatim>\<open>put_frames\<close>. The other values name
  undefined behaviour: \<open>no_segment\<close> is \<^verbatim>\<open>front()\<close> or \<^verbatim>\<open>back()\<close> of an empty segment
  list, \<open>no_picture\<close> is \<^verbatim>\<open>front()\<close> or \<^verbatim>\<open>pop()\<close> of an empty picture queue, \<open>no_frame\<close>
  is \<^verbatim>\<open>pop()\<close> with an empty output queue, \<open>verify_failed\<close> is the failed
  \<^verbatim>\<open>CASPAR_VERIFY\<close> of \<^verbatim>\<open>pop_audio\<close>, and \<open>division_by_zero\<close> is an integer division
  by a zero samples-per-frame constant.
\<close>

datatype error =
    invalid_operation
  | no_segment
  | no_picture
  | no_frame
  | verify_failed
  | division_by_zero

subsection \<open>The state of \<^verbatim>\<open>frame_muxer::implementation\<close>\<close>

text \<open>
  The members \<^verbatim>\<open>processed_audio_sample_count_\<close> and \<^verbatim>\<open>processed_video_frame_count_\<close>
  are never read or written and are left out; \<^verbatim>\<open>frame_factory_\<close> only builds frames.
  \<open>filter_desc\<close> is the description string of \<^verbatim>\<open>filter_\<close>, \<open>store\<close> holds the write
  frames, and \<open>logged\<close> collects what \<^verbatim>\<open>CASPAR_LOG\<close> is given.
\<close>

record muxer =
  video_streams :: "nat list list"
  audio_streams :: "sample list list"
  frame_buffer :: "basic_frame list"
  display_mode :: display_mode
  in_fps :: real
  format_desc :: video_format_desc
  auto_mode :: bool
  audio_sample_count :: nat
  video_frame_count :: nat
  filter_desc :: string
  store :: "write_frame list"
  logged :: "log_entry list"

text \<open>
  An operation returns (\<open>Done\<close>), throws \<open>invalid_operation\<close> and leaves the object in
  the state given (\<open>Thrown\<close>), or has undefined behaviour (\<open>Fault\<close>).
\<close>

datatype result = Done muxer | Thrown muxer | Fault error

text \<open>The constructor: one empty segment on each side, no policy, no filter.\<close>

definition implementation :: "real \<Rightarrow> video_format_desc \<Rightarrow> bool \<Rightarrow> muxer" where
  "implementation fps_in desc auto =
     \<lparr>video_streams = [[]], audio_streams = [[]], frame_buffer = [],
      display_mode = Invalid, in_fps = fps_in, format_desc = desc, auto_mode = auto,
      audio_sample_count = 0, video_frame_count = 0, filter_desc = [],
      store = [], logged = []\<rparr>"

subsection \<open>Collaborators declared outside this file\<close>

text \<open>
  Modelled from the spec: \<^verbatim>\<open>filter::execute\<close>. The Deinterlace Adapter is the identity
  when no filter is configured; a configured filter is opaque and yields a finite
  sequence of zero or more pictures, which the caller of the model supplies as
  \<open>yielded\<close>.
\<close>

definition execute :: "string \<Rightarrow> av_frame \<Rightarrow> av_frame list \<Rightarrow> av_frame list" where
  "execute flt video_frame yielded = (if flt = [] then [video_frame] else yielded)"

text \<open>
  Modelled from the spec: \<^verbatim>\<open>make_write_frame\<close> and the constructor
  \<^verbatim>\<open>write_frame(tag)\<close>. A picture enters as a new frame with the picture's content,
  scan mode and geometry and no audio; a placeholder is an empty frame.
\<close>

definition make_write_frame :: "av_frame \<Rightarrow> write_frame" where
  "make_write_frame av =
     \<lparr>image = data0 av, frame_type = av_mode av, plane_height = av_height av,
      fill_translation = (0, 0), audio_data = []\<rparr>"

definition empty_write_frame :: write_frame where
  "empty_write_frame =
     \<lparr>image = None, frame_type = progressive, plane_height = 0,
      fill_translation = (0, 0), audio_data = []\<rparr>"

text \<open>
  \<^verbatim>\<open>make_safe<write_frame>(...)\<close>: a new object at the next free address of the store.
  The copy constructor of \<^verbatim>\<open>write_frame\<close> (modelled from the spec: an independent copy)
  is \<open>new_frame\<close> applied to the content of the frame copied.
\<close>

definition new_frame :: "write_frame \<Rightarrow> muxer \<Rightarrow> nat \<times> muxer" where
  "new_frame f s = (length (store s), s\<lparr>store := store s @ [f]\<rparr>)"

text \<open>\<^verbatim>\<open>frame->audio_data() = samples\<close>.\<close>

definition set_audio_data :: "nat \<Rightarrow> sample list \<Rightarrow> muxer \<Rightarrow> muxer" where
  "set_audio_data frame samples s =
     s\<lparr>store := (store s)[frame := (store s ! frame)\<lparr>audio_data := samples\<rparr>]\<rparr>"

text \<open>
  Modelled from the spec: \<^verbatim>\<open>basic_frame::interlace\<close>, one composite picture formed from
  the two pictures according to the target field order.
\<close>

definition basic_frame_interlace :: "nat \<Rightarrow> nat \<Rightarrow> video_mode \<Rightarrow> basic_frame" where
  "basic_frame_interlace frame1 frame2 m = Interlaced frame1 frame2 m"

text \<open>The addresses an output frame refers to, and the audio it carries.\<close>

fun frame_addrs :: "basic_frame \<Rightarrow> nat list" where
  "frame_addrs (Frame a) = [a]"
| "frame_addrs (Interlaced a b m) = [a, b]"

definition frame_audio :: "write_frame list \<Rightarrow> basic_frame \<Rightarrow> sample list" where
  "frame_audio st f = concat (map (\<lambda>a. audio_data (st ! a)) (frame_addrs f))"

subsection \<open>Popping from the oldest segments\<close>

text \<open>
  \<open>front xs k\<close> is \<^verbatim>\<open>xs.front()\<close> (or \<^verbatim>\<open>xs.back()\<close>, which fails in the same way) on
  a segment list, followed by \<open>k\<close>; \<open>and_then\<close> continues after a call that returns a
  value and a state.
\<close>

definition front :: "'a list \<Rightarrow> ('a \<Rightarrow> result) \<Rightarrow> result" where
  "front xs k = (case xs of [] \<Rightarrow> Fault no_segment | x # _ \<Rightarrow> k x)"

definition and_then :: "error + 'a \<times> muxer \<Rightarrow> ('a \<Rightarrow> muxer \<Rightarrow> result) \<Rightarrow> result" where
  "and_then r k = (case r of Inl e \<Rightarrow> Fault e | Inr (x, s) \<Rightarrow> k x s)"

definition pop_video :: "muxer \<Rightarrow> error + nat \<times> muxer" where
  "pop_video s =
     (case video_streams s of
        [] \<Rightarrow> Inl no_segment
      | [] # vs \<Rightarrow> Inl no_picture
      | (frame # pictures) # vs \<Rightarrow> Inr (frame, s\<lparr>video_streams := pictures # vs\<rparr>))"

definition pop_audio :: "muxer \<Rightarrow> error + sample list \<times> muxer" where
  "pop_audio s =
     (case audio_streams s of
        [] \<Rightarrow> Inl no_segment
      | a # as \<Rightarrow>
          if \<not> length a \<ge> audio_samples_per_frame (format_desc s) then Inl verify_failed
          else Inr (take (audio_samples_per_frame (format_desc s)) a,
                    s\<lparr>audio_streams := drop (audio_samples_per_frame (format_desc s)) a # as\<rparr>))"

subsection \<open>The combiners\<close>

definition push_back_dest :: "basic_frame list \<Rightarrow> muxer \<Rightarrow> result" where
  "push_back_dest frames s = Done (s\<lparr>frame_buffer := frame_buffer s @ frames\<rparr>)"

definition simple :: "muxer \<Rightarrow> result" where
  "simple s =
     front (video_streams s) (\<lambda>v.
       if v = [] then Done s else
       front (audio_streams s) (\<lambda>a.
         if length a < audio_samples_per_frame (format_desc s) then Done s else
         and_then (pop_video s) (\<lambda>frame1 s1.
         and_then (pop_audio s1) (\<lambda>samples s2.
         push_back_dest [Frame frame1] (set_audio_data frame1 samples s2)))))"

definition duplicate :: "muxer \<Rightarrow> result" where
  "duplicate s =
     front (video_streams s) (\<lambda>v.
       if v = [] then Done s else
       front (audio_streams s) (\<lambda>a.
         if length a div 2 < audio_samples_per_frame (format_desc s) then Done s else
         and_then (pop_video s) (\<lambda>frame s1.
         and_then (Inr (new_frame (store s1 ! frame) s1)) (\<lambda>frame1 s2.
         and_then (pop_audio s2) (\<lambda>samples1 s3.
         and_then (pop_audio (set_audio_data frame1 samples1 s3)) (\<lambda>samples2 s4.
         push_back_dest [Frame frame1, Frame frame]
           (set_audio_data frame samples2 s4)))))))"

definition half :: "muxer \<Rightarrow> result" where
  "half s =
     front (video_streams s) (\<lambda>v.
       if length v < 2 then Done s else
       front (audio_streams s) (\<lambda>a.
         if length a < audio_samples_per_frame (format_desc s) then Done s else
         and_then (pop_video s) (\<lambda>frame1 s1.
         and_then (pop_audio s1) (\<lambda>samples s2.
         and_then (pop_video (set_audio_data frame1 samples s2)) (\<lambda>thrown_away s3.
         push_back_dest [Frame frame1] s3)))))"

definition interlace :: "muxer \<Rightarrow> result" where
  "interlace s =
     front (video_streams s) (\<lambda>v.
       if length v < 2 then Done s else
       front (audio_streams s) (\<lambda>a.
         if length a < audio_samples_per_frame (format_desc s) then Done s else
         and_then (pop_video s) (\<lambda>frame1 s1.
         and_then (pop_audio s1) (\<lambda>samples s2.
         and_then (pop_video (set_audio_data frame1 samples s2)) (\<lambda>frame2 s3.
         push_back_dest [basic_frame_interlace frame1 frame2 (fmt_mode (format_desc s3))]
           s3)))))"

subsection \<open>The pump\<close>

text \<open>
  The first statement of \<^verbatim>\<open>put_frames\<close>: when both sides hold more than one segment and
  an oldest segment is empty, the oldest segment of each side is dropped, with a log
  line when one of the two still holds data.
\<close>

definition truncate :: "muxer \<Rightarrow> muxer" where
  "truncate s =
     (if length (video_streams s) > 1 \<and> length (audio_streams s) > 1
         \<and> (hd (video_streams s) = [] \<or> hd (audio_streams s) = [])
      then
        (let s' =
           (if hd (video_streams s) \<noteq> [] \<or> hd (audio_streams s) \<noteq> []
            then s\<lparr>logged := logged s
                   @ [Log_truncating (length (hd (video_streams s)))
                                     (length (hd (audio_streams s)))]\<rparr>
            else s)
         in s'\<lparr>video_streams := tl (video_streams s'),
               audio_streams := tl (audio_streams s')\<rparr>)
      else s)"

text \<open>The \<^verbatim>\<open>switch\<close> of \<^verbatim>\<open>put_frames\<close>; its default branch throws.\<close>

fun dispatch :: "display_mode \<Rightarrow> muxer \<Rightarrow> result" where
  "dispatch Simple s = simple s"
| "dispatch Duplicate s = duplicate s"
| "dispatch Half s = half s"
| "dispatch Interlace s = interlace s"
| "dispatch Deinterlace_bob s = simple s"
| "dispatch Deinterlace_bob_reinterlace s = interlace s"
| "dispatch Deinterlace s = simple s"
| "dispatch _ s = Thrown s"

definition put_frames :: "muxer \<Rightarrow> result" where
  "put_frames s =
     (let s1 = truncate s
      in front (video_streams s1) (\<lambda>v.
           if v = [] then Done s1 else
           front (audio_streams s1) (\<lambda>a.
             if length a < audio_samples_per_frame (format_desc s1) then Done s1
             else dispatch (display_mode s1) s1)))"

subsection \<open>Admission\<close>

text \<open>\<^verbatim>\<open>video_streams_.back().push(frame); ++video_frame_count_\<close>.\<close>

definition push_back_video :: "nat \<Rightarrow> muxer \<Rightarrow> result" where
  "push_back_video frame s =
     front (video_streams s) (\<lambda>_.
       Done (s\<lparr>video_streams := butlast (video_streams s) @ [last (video_streams s) @ [frame]],
               video_frame_count := video_frame_count s + 1\<rparr>))"

text \<open>The field-order fix applied to a frame made from a filtered picture.\<close>

definition fix_field_order :: "video_mode \<Rightarrow> write_frame \<Rightarrow> write_frame" where
  "fix_field_order target frame =
     (if frame_type frame = lower \<and> target = upper
      then frame\<lparr>fill_translation := (0, 0.5 / real_of_int (plane_height frame))\<rparr>
      else if frame_type frame = upper \<and> target = lower
      then frame\<lparr>fill_translation := (0, - 0.5 / real_of_int (plane_height frame))\<rparr>
      else frame)"

text \<open>What follows a call that returns normally.\<close>

fun on_done :: "result \<Rightarrow> (muxer \<Rightarrow> result) \<Rightarrow> result" where
  "on_done (Done s) k = k s"
| "on_done (Thrown s) k = Thrown s"
| "on_done (Fault e) k = Fault e"

text \<open>The loop over the pictures the filter yields.\<close>

fun push_filtered :: "av_frame list \<Rightarrow> muxer \<Rightarrow> result" where
  "push_filtered [] s = Done s"
| "push_filtered (av # rest) s =
     and_then
       (Inr (new_frame (fix_field_order (fmt_mode (format_desc s)) (make_write_frame av)) s))
       (\<lambda>frame s1.
          on_done (push_back_video frame s1) (\<lambda>s2.
          on_done (put_frames s2) (push_filtered rest)))"

text \<open>
  The decision made on a real picture while the policy is \<open>Invalid\<close>: the resolver and
  the rescale override in auto mode, \<open>Simple\<close> otherwise, and the filter the policy
  needs.
\<close>

definition decide_display_mode :: "av_frame \<Rightarrow> muxer \<Rightarrow> muxer" where
  "decide_display_mode video_frame s =
     (let s2 =
        (if auto_mode s then
           (let in_mode = av_mode video_frame;
                dm = get_display_mode in_mode (in_fps s)
                       (fmt_mode (format_desc s)) (fmt_fps (format_desc s));
                dm' =
                  (if dm = Simple \<and> in_mode \<noteq> progressive
                      \<and> fmt_mode (format_desc s) \<noteq> progressive
                      \<and> av_height video_frame \<noteq> static_cast_int (fmt_height (format_desc s))
                   then Deinterlace_bob_reinterlace else dm)
            in s\<lparr>display_mode := dm',
                 filter_desc :=
                   (if dm' = Deinterlace then ''YADIF=0:-1''
                    else if dm' = Deinterlace_bob \<or> dm' = Deinterlace_bob_reinterlace
                    then ''YADIF=1:-1''
                    else filter_desc s)\<rparr>)
         else s\<lparr>display_mode := Simple\<rparr>)
      in s2\<lparr>logged := logged s2 @ [Log_frame_muxer (print (display_mode s2))]\<rparr>)"

definition push_video :: "av_frame option \<Rightarrow> av_frame list \<Rightarrow> muxer \<Rightarrow> result" where
  "push_video video_frame yielded s =
     (case video_frame of
        None \<Rightarrow>
          Done (s\<lparr>logged := logged s @ [Log_video_frame_count (video_frame_count s)],
                  video_frame_count := 0,
                  video_streams := video_streams s @ [[]]\<rparr>)
      | Some vf \<Rightarrow>
          if data0 vf = None then
            and_then (Inr (new_frame empty_write_frame s)) (\<lambda>frame s1.
              on_done (push_back_video frame s1) put_frames)
          else
            (let s1 = (if display_mode s = Invalid then decide_display_mode vf s else s)
             in push_filtered (execute (filter_desc s1) vf yielded) s1))"

text \<open>
  \<^verbatim>\<open>audio_sample_count_ += audio_samples->size()\<close> and the append to
  \<^verbatim>\<open>audio_streams_.back()\<close>.
\<close>

definition push_back_audio :: "sample list \<Rightarrow> muxer \<Rightarrow> result" where
  "push_back_audio samples s =
     (let s1 = s\<lparr>audio_sample_count := audio_sample_count s + length samples\<rparr>
      in front (audio_streams s1) (\<lambda>_.
           Done (s1\<lparr>audio_streams := butlast (audio_streams s1)
                                        @ [last (audio_streams s1) @ samples]\<rparr>)))"

text \<open>
  The log line of an audio reset divides the sample counter by the samples-per-frame
  constant.
\<close>

definition push_audio :: "sample list option \<Rightarrow> muxer \<Rightarrow> result" where
  "push_audio audio_samples s =
     (case audio_samples of
        None \<Rightarrow>
          if audio_samples_per_frame (format_desc s) = 0 then Fault division_by_zero
          else
            Done (s\<lparr>logged := logged s
                      @ [Log_audio_chunk_count
                           (audio_sample_count s div audio_samples_per_frame (format_desc s))],
                    audio_streams := audio_streams s @ [[]],
                    audio_sample_count := 0\<rparr>)
      | Some samples \<Rightarrow> on_done (push_back_audio samples s) put_frames)"

subsection \<open>The output queue and the readiness predicates\<close>

definition pop :: "muxer \<Rightarrow> error + basic_frame \<times> muxer" where
  "pop s =
     (case frame_buffer s of
        [] \<Rightarrow> Inl no_frame
      | frame # frames \<Rightarrow> Inr (frame, s\<lparr>frame_buffer := frames\<rparr>))"

definition size_muxer :: "muxer \<Rightarrow> nat" where
  "size_muxer s = length (frame_buffer s)"

definition empty_muxer :: "muxer \<Rightarrow> bool" where
  "empty_muxer s = (size_muxer s = 0)"

definition video_frames :: "muxer \<Rightarrow> error + nat" where
  "video_frames s =
     (case video_streams s of [] \<Rightarrow> Inl no_segment
      | _ # _ \<Rightarrow> Inr (length (last (video_streams s))))"

definition audio_chunks :: "muxer \<Rightarrow> error + nat" where
  "audio_chunks s =
     (case audio_streams s of [] \<Rightarrow> Inl no_segment
      | _ # _ \<Rightarrow>
          if audio_samples_per_frame (format_desc s) = 0 then Inl division_by_zero
          else Inr (length (last (audio_streams s)) div audio_samples_per_frame (format_desc s)))"

definition video_ready :: "muxer \<Rightarrow> error + bool" where
  "video_ready s =
     (case video_frames s of Inl e \<Rightarrow> Inl e
      | Inr n \<Rightarrow> Inr (n > 1 \<and> length (video_streams s) \<ge> length (audio_streams s)))"

definition audio_ready :: "muxer \<Rightarrow> error + bool" where
  "audio_ready s =
     (case audio_chunks s of Inl e \<Rightarrow> Inl e
      | Inr n \<Rightarrow> Inr (n > 1 \<and> length (audio_streams s) \<ge> length (video_streams s)))"

subsection \<open>Sequences of operations\<close>

text \<open>
  The operations a caller can perform on one instance. A video push carries the picture
  pointer (\<open>None\<close> is the null pointer) and what a configured filter yields for it.
  A caller may catch \<open>invalid_operation\<close> and go on using the object; after undefined
  behaviour there is no state to go on from.
\<close>

datatype operation =
    Push_video "av_frame option" "av_frame list"
  | Push_audio "sample list option"
  | Pop

fun step :: "operation \<Rightarrow> muxer \<Rightarrow> result" where
  "step (Push_video video_frame yielded) s = push_video video_frame yielded s"
| "step (Push_audio audio_samples) s = push_audio audio_samples s"
| "step Pop s = and_then (pop s) (\<lambda>frame s'. Done s')"

fun state_after :: "result \<Rightarrow> muxer option" where
  "state_after (Done s) = Some s"
| "state_after (Thrown s) = Some s"
| "state_after (Fault e) = None"

fun run :: "operation list \<Rightarrow> muxer \<Rightarrow> muxer option" where
  "run [] s = Some s"
| "run (x # xs) s = (case state_after (step x s) of None \<Rightarrow> None | Some s' \<Rightarrow> run xs s')"

subsection \<open>Predicates on results\<close>

text \<open>
  \<open>spf\<close> abbreviates the samples-per-frame constant of the target format.
  \<open>holds P r\<close>: \<open>r\<close> is not undefined behaviour, the state it leaves satisfies \<open>P\<close>, and
  when \<open>r\<close> is the exception the policy of that state is none of the seven cadences.
\<close>

abbreviation spf :: "muxer \<Rightarrow> nat" where
  "spf s \<equiv> audio_samples_per_frame (format_desc s)"

fun holds :: "(muxer \<Rightarrow> bool) \<Rightarrow> result \<Rightarrow> bool" where
  "holds P (Done s) = P s"
| "holds P (Thrown s) = (P s \<and> (display_mode s = Invalid \<or> display_mode s = Count))"
| "holds P (Fault e) = False"

subsection \<open>Invariants\<close>

text \<open>
  \<open>segments_present\<close>: both segment lists hold at least one segment.
  \<open>pump_preserves P\<close> and \<open>admission_preserves P\<close> collect what makes a predicate an
  invariant of the pump and of the pushes of pictures and samples.
\<close>

definition segments_present :: "muxer \<Rightarrow> bool" where
  "segments_present s = (video_streams s \<noteq> [] \<and> audio_streams s \<noteq> [])"

definition pump_preserves :: "(muxer \<Rightarrow> bool) \<Rightarrow> bool" where
  "pump_preserves P =
     ((\<forall>s. P s \<longrightarrow> segments_present s)
      \<and> (\<forall>s. P s \<longrightarrow> P (truncate s))
      \<and> (\<forall>s. P s \<longrightarrow> holds P (simple s))
      \<and> (\<forall>s. P s \<longrightarrow> holds P (duplicate s))
      \<and> (\<forall>s. P s \<longrightarrow> holds P (half s))
      \<and> (\<forall>s. P s \<longrightarrow> holds P (interlace s)))"

definition admission_preserves :: "(muxer \<Rightarrow> bool) \<Rightarrow> bool" where
  "admission_preserves P =
     (pump_preserves P
      \<and> (\<forall>s f. P s \<and> audio_data f = []
             \<longrightarrow> holds P (push_back_video (fst (new_frame f s)) (snd (new_frame f s))))
      \<and> (\<forall>s samples. P s \<longrightarrow> holds P (push_back_audio samples s)))"

definition invariant :: "(muxer \<Rightarrow> bool) \<Rightarrow> bool" where
  "invariant P =
     (admission_preserves P
      \<and> (\<forall>s vf. P s \<and> display_mode s = Invalid \<longrightarrow> P (decide_display_mode vf s))
      \<and> (\<forall>s ys. P s \<longrightarrow> holds P (push_video None ys s))
      \<and> (\<forall>s s'. P s \<and> push_audio None s = Done s' \<longrightarrow> P s')
      \<and> (\<forall>s frame s'. P s \<and> pop s = Inr (frame, s') \<longrightarrow> P s'))"

subsection \<open>Example data\<close>

text \<open>A progressive 25 fps target with two samples per frame, and a progressive picture.\<close>

definition format0 :: video_format_desc where
  "format0 = \<lparr>fmt_mode = progressive, fmt_fps = 25, fmt_height = 576, audio_samples_per_frame = 2\<rparr>"

definition picture0 :: av_frame where
  "picture0 = \<lparr>data0 = Some [1, 2, 3], av_height = 576, av_mode = progressive\<rparr>"

text \<open>
  An interlaced 25 fps target, an interlaced picture of another height, an interlaced
  target whose height is \<open>2 ^ 32 + 480\<close>, and a placeholder.
\<close>

definition interlaced_format :: video_format_desc where
  "interlaced_format = \<lparr>fmt_mode = upper, fmt_fps = 25, fmt_height = 576, audio_samples_per_frame = 2\<rparr>"

definition interlaced_picture :: av_frame where
  "interlaced_picture = \<lparr>data0 = Some [1, 2, 3], av_height = 480, av_mode = upper\<rparr>"


definition placeholder :: av_frame where
  "placeholder = \<lparr>data0 = None, av_height = 0, av_mode = progressive\<rparr>"

subsection \<open>The policy and the configuration\<close>

text \<open>
  \<open>keeps c s\<close>: \<open>s\<close> has the policy, the filter and the configuration of \<open>c\<close>.
  \<open>real_picture x\<close>: the operation admits a real picture.
\<close>

definition keeps :: "muxer \<Rightarrow> muxer \<Rightarrow> bool" where
  "keeps c s =
     (segments_present s \<and> display_mode s = display_mode c \<and> filter_desc s = filter_desc c
      \<and> in_fps s = in_fps c \<and> format_desc s = format_desc c \<and> auto_mode s = auto_mode c)"

fun real_picture :: "operation \<Rightarrow> bool" where
  "real_picture (Push_video (Some vf) ys) = (data0 vf \<noteq> None)"
| "real_picture _ = False"

subsection \<open>Segment counts\<close>

text \<open>
  \<open>segment_gap\<close> is the number of video segments minus the number of audio segments;
  \<open>reset_gap\<close> is what a reset marker adds to it.
\<close>

definition segment_gap :: "muxer \<Rightarrow> int" where
  "segment_gap s = int (length (video_streams s)) - int (length (audio_streams s))"

fun reset_gap :: "operation \<Rightarrow> int" where
  "reset_gap (Push_video None ys) = 1"
| "reset_gap (Push_audio None) = - 1"
| "reset_gap _ = 0"

definition gap_is :: "int \<Rightarrow> muxer \<Rightarrow> bool" where
  "gap_is d s = (segments_present s \<and> segment_gap s = d)"

subsection \<open>The frames in the store\<close>

text \<open>
  \<open>silent st a\<close>: the frame at address \<open>a\<close> exists and carries no audio.
  \<open>complete n st f\<close>: the output frame \<open>f\<close> refers to frames that exist and carries \<open>n\<close>
  samples. \<open>queued s\<close> lists the addresses of the buffered pictures, \<open>addrs\<close> those of
  a list of output frames. \<open>frames_inv\<close>: no address occurs twice among the buffered
  pictures and the output frames, buffered pictures are silent and output frames are
  complete.
\<close>

definition silent :: "write_frame list \<Rightarrow> nat \<Rightarrow> bool" where
  "silent st a = (a < length st \<and> audio_data (st ! a) = [])"

definition complete :: "nat \<Rightarrow> write_frame list \<Rightarrow> basic_frame \<Rightarrow> bool" where
  "complete n st f =
     ((\<forall>a \<in> set (frame_addrs f). a < length st) \<and> length (frame_audio st f) = n)"

definition queued :: "muxer \<Rightarrow> nat list" where
  "queued s = concat (video_streams s)"

definition addrs :: "basic_frame list \<Rightarrow> nat list" where
  "addrs frames = concat (map frame_addrs frames)"

definition frames_inv :: "nat \<Rightarrow> nat list \<Rightarrow> basic_frame list \<Rightarrow> write_frame list \<Rightarrow> bool" where
  "frames_inv n q frames st =
     (distinct (q @ addrs frames) \<and> (\<forall>a \<in> set q. silent st a)
      \<and> (\<forall>f \<in> set frames. complete n st f))"

definition frames_ok :: "video_format_desc \<Rightarrow> muxer \<Rightarrow> bool" where
  "frames_ok desc s =
     (segments_present s \<and> format_desc s = desc
      \<and> frames_inv (audio_samples_per_frame desc) (queued s) (frame_buffer s) (store s))"

subsection \<open>Truncation\<close>

text \<open>
  \<open>counts_ok\<close>: while a side holds more than one segment, its counter is the size of its
  newest segment. \<open>one_sided\<close>: a truncation log line reports data on exactly one side.
  \<open>gone D s\<close>: the addresses in \<open>D\<close> are allocated and neither buffered nor in the output
  queue. \<open>pumps x\<close>: the operation runs the pump at least once. \<open>strip\<close> forgets the log;
  \<open>with_oldest_audio samples s\<close> is \<open>s\<close> with other samples in its oldest audio segment;
  \<open>log_blind k\<close>: apart from the log, the result of \<open>k\<close> does not depend on the log.
\<close>

definition counts_ok :: "muxer \<Rightarrow> bool" where
  "counts_ok s =
     (segments_present s
      \<and> (length (video_streams s) > 1 \<longrightarrow> video_frame_count s = length (last (video_streams s)))
      \<and> (length (audio_streams s) > 1 \<longrightarrow> audio_sample_count s = length (last (audio_streams s))))"

fun one_sided :: "log_entry \<Rightarrow> bool" where
  "one_sided (Log_truncating k m) = ((k = 0) \<noteq> (m = 0))"
| "one_sided _ = True"

definition log_ok :: "muxer \<Rightarrow> bool" where
  "log_ok s = (segments_present s \<and> list_all one_sided (logged s))"

definition gone :: "nat set \<Rightarrow> muxer \<Rightarrow> bool" where
  "gone D s =
     (segments_present s
      \<and> (\<forall>a \<in> D. a < length (store s) \<and> a \<notin> set (queued s)
             \<and> a \<notin> set (addrs (frame_buffer s))))"

fun pumps :: "operation \<Rightarrow> bool" where
  "pumps (Push_audio (Some samples)) = True"
| "pumps (Push_video (Some vf) ys) = (data0 vf = None \<or> ys \<noteq> [])"
| "pumps _ = False"

definition strip :: "muxer \<Rightarrow> muxer" where
  "strip s = s\<lparr>logged := []\<rparr>"

fun strip_result :: "result \<Rightarrow> result" where
  "strip_result (Done s) = Done (strip s)"
| "strip_result (Thrown s) = Thrown (strip s)"
| "strip_result (Fault e) = Fault e"

definition with_oldest_audio :: "sample list \<Rightarrow> muxer \<Rightarrow> muxer" where
  "with_oldest_audio samples s = s\<lparr>audio_streams := samples # tl (audio_streams s)\<rparr>"

definition log_blind :: "(muxer \<Rightarrow> result) \<Rightarrow> bool" where
  "log_blind k = (\<forall>u l. strip_result (k (u\<lparr>logged := l\<rparr>)) = strip_result (k u))"

section \<open>Theorems\<close>

subsection \<open>The cadence resolver\<close>

lemma table_policy_rule_table:
  "table_policy halved_rate_relation_holds rule_table im fi om fo =
     (if within_tolerance fi fo then
        (if im \<noteq> progressive \<and> om = progressive then Deinterlace else Simple)
      else if within_tolerance (fi / 2) fo then
        (if im \<noteq> progressive then Invalid
         else if om \<noteq> progressive then Interlace else Half)
      else if within_tolerance fi (fo / 2) then
        (if om \<noteq> progressive then Invalid
         else if im \<noteq> progressive then Deinterlace_bob else Duplicate)
      else Invalid)"
  by (simp add: rule_table_def)

text \<open>
  The claim C1 as stated fails: for a progressive 24 fps source and a progressive 50 fps
  target no rate relation of the table holds within the tolerance 2.0 (the rates differ
  by 26, twice the target is 100, and twice the source is 48, which is 2 away from 50),
  so the table gives \<open>Invalid\<close>; \<open>get_display_mode\<close> compares 24 with half of 50 and
  returns \<open>Duplicate\<close>.
\<close>

theorem get_display_mode_table_counterexample:
  "get_display_mode progressive 24 progressive 50 = Duplicate
   \<and> table_policy rate_relation_holds rule_table progressive 24 progressive 50 = Invalid"
  by (simp add: get_display_mode_def epsilon_def rule_table_def within_tolerance_def)

text \<open>
  Claim C1, amended. For every source scan mode, source rate, target scan mode and target
  rate, \<open>get_display_mode\<close> returns the policy of the first row of the rule table of
  section 4.1 that covers the combination, and \<open>Invalid\<close> for a combination no row covers,
  where the rates are equal when they differ by less than 2.0, the source is twice the
  target when half the source rate differs from the target rate by less than 2.0, and
  the target is twice the source when the source rate differs from half the target rate
  by less than 2.0.
\<close>

theorem get_display_mode_table:
  "get_display_mode im fi om fo = table_policy halved_rate_relation_holds rule_table im fi om fo"
  unfolding table_policy_rule_table get_display_mode_def within_tolerance_def epsilon_def
  by simp

theorem get_display_mode_table_witness:
  "get_display_mode progressive 24 progressive 50 = Duplicate
   \<and> table_policy halved_rate_relation_holds rule_table progressive 24 progressive 50 = Duplicate"
  using get_display_mode_table [of progressive 24 progressive 50]
  by (simp add: get_display_mode_def epsilon_def)

subsection \<open>The combiners in closed form\<close>


lemma simple_eq:
  assumes "video_streams s = v # vs" "audio_streams s = a # as"
  shows "simple s =
    (if v = [] \<or> length a < spf s then Done s
     else Done (s\<lparr>video_streams := tl v # vs,
                  audio_streams := drop (spf s) a # as,
                  store := (store s)[hd v := (store s ! hd v)\<lparr>audio_data := take (spf s) a\<rparr>],
                  frame_buffer := frame_buffer s @ [Frame (hd v)]\<rparr>))"
  using assms
  by (cases v) (simp_all add: simple_def front_def and_then_def pop_video_def pop_audio_def
      set_audio_data_def push_back_dest_def)

lemma duplicate_eq:
  assumes "video_streams s = v # vs" "audio_streams s = a # as"
  shows "duplicate s =
    (if v = [] \<or> length a div 2 < spf s then Done s
     else Done (s\<lparr>video_streams := tl v # vs,
                  audio_streams := drop (spf s) (drop (spf s) a) # as,
                  store := (store s @ [(store s ! hd v)\<lparr>audio_data := take (spf s) a\<rparr>])
                     [hd v := ((store s @ [(store s ! hd v)\<lparr>audio_data := take (spf s) a\<rparr>]) ! hd v)
                        \<lparr>audio_data := take (spf s) (drop (spf s) a)\<rparr>],
                  frame_buffer := frame_buffer s @ [Frame (length (store s)), Frame (hd v)]\<rparr>))"
proof -
  have "length a div 2 < spf s \<or> (spf s \<le> length a \<and> spf s \<le> length a - spf s)"
    by linarith
  then show ?thesis using assms
    by (cases v) (auto simp add: duplicate_def front_def and_then_def pop_video_def pop_audio_def
      set_audio_data_def push_back_dest_def new_frame_def)
qed

lemma half_eq:
  assumes "video_streams s = v # vs" "audio_streams s = a # as"
  shows "half s =
    (if length v < 2 \<or> length a < spf s then Done s
     else Done (s\<lparr>video_streams := tl (tl v) # vs,
                  audio_streams := drop (spf s) a # as,
                  store := (store s)[hd v := (store s ! hd v)\<lparr>audio_data := take (spf s) a\<rparr>],
                  frame_buffer := frame_buffer s @ [Frame (hd v)]\<rparr>))"
  using assms
  by (cases v; cases "tl v") (auto simp add: half_def front_def and_then_def pop_video_def pop_audio_def
      set_audio_data_def push_back_dest_def)

lemma interlace_eq:
  assumes "video_streams s = v # vs" "audio_streams s = a # as"
  shows "interlace s =
    (if length v < 2 \<or> length a < spf s then Done s
     else Done (s\<lparr>video_streams := tl (tl v) # vs,
                  audio_streams := drop (spf s) a # as,
                  store := (store s)[hd v := (store s ! hd v)\<lparr>audio_data := take (spf s) a\<rparr>],
                  frame_buffer := frame_buffer s @ [Interlaced (hd v) (hd (tl v)) (fmt_mode (format_desc s))]\<rparr>))"
  using assms
  by (cases v; cases "tl v") (auto simp add: interlace_def front_def and_then_def pop_video_def pop_audio_def
      set_audio_data_def push_back_dest_def basic_frame_interlace_def)

subsection \<open>Invariants of the pump and of admission\<close>

lemma holds_on_done:
  assumes "holds P r" "\<And>s. P s \<Longrightarrow> holds P (k s)"
  shows "holds P (on_done r k)"
  using assms by (cases r) simp_all

lemma holds_put_frames:
  assumes pp: "pump_preserves P" and P: "P s"
  shows "holds P (put_frames s)"
proof -
  let ?t = "truncate s"
  have Pt: "P ?t" using pp P unfolding pump_preserves_def by blast
  then have "segments_present ?t" using pp unfolding pump_preserves_def by blast
  then obtain v vs a as where v: "video_streams ?t = v # vs" and a: "audio_streams ?t = a # as"
    by (auto simp: segments_present_def neq_Nil_conv)
  from pp Pt have c: "holds P (simple ?t)" "holds P (duplicate ?t)" "holds P (half ?t)"
    "holds P (interlace ?t)"
    unfolding pump_preserves_def by blast+
  have d: "holds P (dispatch (display_mode ?t) ?t)"
    using c Pt by (cases "display_mode ?t") simp_all
  show ?thesis using v a Pt d by (simp add: put_frames_def Let_def front_def)
qed

lemma holds_push_filtered:
  assumes ap: "admission_preserves P" and P: "P s"
  shows "holds P (push_filtered xs s)"
  using P
proof (induction xs arbitrary: s)
  case Nil
  then show ?case by simp
next
  case (Cons av rest)
  let ?f = "fix_field_order (fmt_mode (format_desc s)) (make_write_frame av)"
  have "audio_data ?f = []" by (simp add: fix_field_order_def make_write_frame_def)
  then have 1: "holds P (push_back_video (fst (new_frame ?f s)) (snd (new_frame ?f s)))"
    using ap Cons.prems unfolding admission_preserves_def by blast
  have pp: "pump_preserves P" using ap unfolding admission_preserves_def by blast
  have "holds P (on_done (push_back_video (fst (new_frame ?f s)) (snd (new_frame ?f s)))
           (\<lambda>s2. on_done (put_frames s2) (push_filtered rest)))"
    by (rule holds_on_done [OF 1]) (rule holds_on_done [OF holds_put_frames [OF pp]], assumption, rule Cons.IH)
  then show ?case by (simp add: and_then_def case_prod_beta)
qed

lemma holds_push_video_picture:
  assumes ap: "admission_preserves P" and P: "P s"
    and dec: "data0 vf \<noteq> None \<Longrightarrow> display_mode s = Invalid \<Longrightarrow> P (decide_display_mode vf s)"
  shows "holds P (push_video (Some vf) ys s)"
proof (cases "data0 vf = None")
  case True
  from ap have pp: "pump_preserves P" unfolding admission_preserves_def by blast
  have "audio_data empty_write_frame = []" by (simp add: empty_write_frame_def)
  with ap P have 1: "holds P (push_back_video (fst (new_frame empty_write_frame s))
                       (snd (new_frame empty_write_frame s)))"
    unfolding admission_preserves_def by blast
  have "holds P (on_done (push_back_video (fst (new_frame empty_write_frame s))
                   (snd (new_frame empty_write_frame s))) put_frames)"
    by (rule holds_on_done [OF 1]) (rule holds_put_frames [OF pp])
  with True show ?thesis by (simp add: push_video_def and_then_def case_prod_beta)
next
  case False
  show ?thesis
  proof (cases "display_mode s = Invalid")
    case True
    with False dec have "P (decide_display_mode vf s)" by blast
    with False True show ?thesis
      by (auto simp add: push_video_def Let_def holds_push_filtered [OF ap])
  next
    case inv: False
    with False P show ?thesis
      by (auto simp add: push_video_def Let_def holds_push_filtered [OF ap])
  qed
qed

lemma holds_push_audio_samples:
  assumes ap: "admission_preserves P" and P: "P s"
  shows "holds P (push_audio (Some samples) s)"
proof -
  have pp: "pump_preserves P" using ap unfolding admission_preserves_def by blast
  have 1: "holds P (push_back_audio samples s)"
    using ap P unfolding admission_preserves_def by blast
  show ?thesis unfolding push_audio_def option.case
    by (rule holds_on_done [OF 1]) (rule holds_put_frames [OF pp])
qed

subsection \<open>Invariants of whole runs\<close>

lemmas muxer_defs = implementation_def push_video_def push_audio_def put_frames_def truncate_def
  simple_def duplicate_def half_def interlace_def front_def and_then_def pop_video_def pop_audio_def
  push_back_dest_def set_audio_data_def new_frame_def push_back_video_def push_back_audio_def
  decide_display_mode_def execute_def make_write_frame_def empty_write_frame_def fix_field_order_def
  basic_frame_interlace_def pop_def get_display_mode_def epsilon_def static_cast_int_def Let_def

lemma holds_push:
  assumes inv: "invariant P" and P: "P s"
  shows "holds P (push_video (Some vf) ys s)" "holds P (push_video None ys s)"
    "holds P (push_audio (Some samples) s)"
proof -
  from inv have ap: "admission_preserves P" unfolding invariant_def by blast
  from inv P have "display_mode s = Invalid \<Longrightarrow> P (decide_display_mode vf s)"
    unfolding invariant_def by blast
  then show "holds P (push_video (Some vf) ys s)"
    by (rule holds_push_video_picture [OF ap P])
  show "holds P (push_audio (Some samples) s)" by (rule holds_push_audio_samples [OF ap P])
  from inv have "\<forall>s ys. P s \<longrightarrow> holds P (push_video None ys s)"
    unfolding invariant_def by blast
  with P show "holds P (push_video None ys s)" by blast
qed

lemma push_audio_reset_cases:
  "push_audio None s = Fault division_by_zero \<or> (\<exists>s'. push_audio None s = Done s')"
  by (simp add: push_audio_def)

lemma after_step:
  assumes inv: "invariant P" and P: "P s" and s': "state_after (step x s) = Some s'"
  shows "P s'"
proof (cases x)
  case (Push_video vf ys)
  have "holds P (push_video vf ys s)"
    using holds_push [OF inv P] by (cases vf) simp_all
  with s' Push_video show ?thesis by (cases "push_video vf ys s") simp_all
next
  case (Push_audio smp)
  show ?thesis
  proof (cases smp)
    case None
    from s' Push_audio None have "state_after (push_audio None s) = Some s'" by simp
    with push_audio_reset_cases [of s] have d: "push_audio None s = Done s'" by auto
    from inv have "\<forall>s s'. P s \<and> push_audio None s = Done s' \<longrightarrow> P s'"
      unfolding invariant_def by blast
    with P d show ?thesis by blast
  next
    case (Some samples)
    have "holds P (push_audio (Some samples) s)" by (rule holds_push [OF inv P])
    with s' Push_audio Some show ?thesis by (cases "push_audio (Some samples) s") simp_all
  qed
next
  case Pop
  with s' have "state_after (and_then (pop s) (\<lambda>frame s'. Done s')) = Some s'" by simp
  then obtain frame where f: "pop s = Inr (frame, s')"
    by (cases "pop s") (auto simp: and_then_def)
  from inv have "\<forall>s frame s'. P s \<and> pop s = Inr (frame, s') \<longrightarrow> P s'"
    unfolding invariant_def by blast
  with P f show ?thesis by blast
qed

lemma run_invariant:
  assumes inv: "invariant P"
  shows "P s \<Longrightarrow> run xs s = Some s' \<Longrightarrow> P s'"
proof (induction xs arbitrary: s)
  case Nil
  then show ?case by simp
next
  case (Cons x xs)
  from Cons.prems(2) obtain s1 where s1: "state_after (step x s) = Some s1" and r: "run xs s1 = Some s'"
    by (auto split: option.splits)
  have "P s1" by (rule after_step [OF inv Cons.prems(1) s1])
  then show ?case using r by (rule Cons.IH)
qed

lemma truncate_fields [simp]:
  "frame_buffer (truncate s) = frame_buffer s"
  "display_mode (truncate s) = display_mode s"
  "format_desc (truncate s) = format_desc s"
  "store (truncate s) = store s"
  "in_fps (truncate s) = in_fps s"
  "auto_mode (truncate s) = auto_mode s"
  "filter_desc (truncate s) = filter_desc s"
  "audio_sample_count (truncate s) = audio_sample_count s"
  "video_frame_count (truncate s) = video_frame_count s"
  by (simp_all add: truncate_def Let_def)

lemma segments_present_truncate: "segments_present s \<Longrightarrow> segments_present (truncate s)"
  by (cases "video_streams s"; cases "audio_streams s")
     (auto simp: segments_present_def truncate_def Let_def)

lemma pump_preserves_segments_present: "pump_preserves segments_present"
  unfolding pump_preserves_def
proof (intro conjI allI impI)
  fix s assume "segments_present s"
  then obtain v vs a as where va: "video_streams s = v # vs" "audio_streams s = a # as"
    by (auto simp: segments_present_def neq_Nil_conv)
  show "holds segments_present (simple s)" by (simp add: simple_eq [OF va] segments_present_def va)
  show "holds segments_present (duplicate s)" by (simp add: duplicate_eq [OF va] segments_present_def va)
  show "holds segments_present (half s)" by (simp add: half_eq [OF va] segments_present_def va)
  show "holds segments_present (interlace s)" by (simp add: interlace_eq [OF va] segments_present_def va)
qed (simp_all add: segments_present_truncate)

lemma invariant_segments_present: "invariant segments_present"
  unfolding invariant_def admission_preserves_def
proof (intro conjI allI impI)
  show "pump_preserves segments_present" by (rule pump_preserves_segments_present)
next
  fix s and f :: write_frame assume "segments_present s \<and> audio_data f = []"
  then show "holds segments_present (push_back_video (fst (new_frame f s)) (snd (new_frame f s)))"
    by (auto simp: segments_present_def push_back_video_def new_frame_def front_def split: list.splits)
next
  fix s samples assume "segments_present s"
  then show "holds segments_present (push_back_audio samples s)"
    by (auto simp: segments_present_def push_back_audio_def Let_def front_def split: list.splits)
next
  fix s vf assume "segments_present s \<and> display_mode s = Invalid"
  then show "segments_present (decide_display_mode vf s)"
    by (simp add: segments_present_def decide_display_mode_def Let_def)
next
  fix s ys assume "segments_present s"
  then show "holds segments_present (push_video None ys s)"
    by (simp add: segments_present_def push_video_def)
next
  fix s s' assume "segments_present s \<and> push_audio None s = Done s'"
  then show "segments_present s'"
    by (auto simp: segments_present_def push_audio_def split: if_splits)
next
  fix s frame s' assume "segments_present s \<and> pop s = Inr (frame, s')"
  then show "segments_present s'"
    by (auto simp: segments_present_def pop_def split: list.splits)
qed

text \<open>
  Claim C10. A new instance holds one segment on each side, and after any sequence of
  operations on it both segment lists are non-empty; no operation performed in such a
  state calls \<^verbatim>\<open>front()\<close> or \<^verbatim>\<open>back()\<close> on an empty segment list, and neither do
  the readiness predicates.
\<close>

theorem segment_lists_never_empty:
  assumes "run xs (implementation fps_in desc auto) = Some s"
  shows "video_streams (implementation fps_in desc auto) = [[]]
       \<and> audio_streams (implementation fps_in desc auto) = [[]]
       \<and> video_streams s \<noteq> [] \<and> audio_streams s \<noteq> []
       \<and> step x s \<noteq> Fault no_segment
       \<and> video_ready s \<noteq> Inl no_segment \<and> audio_ready s \<noteq> Inl no_segment"
proof -
  have "segments_present (implementation fps_in desc auto)"
    by (simp add: segments_present_def implementation_def)
  then have sp: "segments_present s"
    using assms by (rule run_invariant [OF invariant_segments_present])
  have "step x s \<noteq> Fault no_segment"
  proof (cases x)
    case (Push_video vf ys)
    have "holds segments_present (push_video vf ys s)"
      using holds_push [OF invariant_segments_present sp] by (cases vf) simp_all
    with Push_video show ?thesis by auto
  next
    case (Push_audio smp)
    show ?thesis
    proof (cases smp)
      case None
      with Push_audio show ?thesis by (simp add: push_audio_def)
    next
      case (Some samples)
      have "holds segments_present (push_audio (Some samples) s)"
        by (rule holds_push [OF invariant_segments_present sp])
      with Push_audio Some show ?thesis by auto
    qed
  next
    case Pop
    then show ?thesis by (simp add: pop_def and_then_def split: list.splits)
  qed
  moreover have "video_ready s \<noteq> Inl no_segment" "audio_ready s \<noteq> Inl no_segment"
    using sp by (auto simp: segments_present_def video_ready_def audio_ready_def
        video_frames_def audio_chunks_def split: list.splits)
  ultimately show ?thesis using sp by (simp add: segments_present_def implementation_def)
qed

theorem segment_lists_never_empty_witness:
  "run [Push_video None [], Push_audio None, Push_video (Some picture0) [],
        Push_audio (Some [1, 2, 3]), Pop] (implementation 25 format0 False) \<noteq> None
   \<and> video_streams (the (run [Push_video None [], Push_audio None, Push_video (Some picture0) [],
        Push_audio (Some [1, 2, 3]), Pop] (implementation 25 format0 False))) \<noteq> []
   \<and> audio_streams (the (run [Push_video None [], Push_audio None, Push_video (Some picture0) [],
        Push_audio (Some [1, 2, 3]), Pop] (implementation 25 format0 False))) \<noteq> []"
proof -
  let ?r = "run [Push_video None [], Push_audio None, Push_video (Some picture0) [],
        Push_audio (Some [1, 2, 3]), Pop] (implementation 25 format0 False)"
  have r: "?r = Some (the ?r)"
    by (simp add: muxer_defs format0_def picture0_def)
  have ne: "?r \<noteq> None" by (subst r) simp
  from segment_lists_never_empty [OF r, of Pop] ne show ?thesis by blast
qed

subsection \<open>Dispatch with an invalid policy\<close>

text \<open>
  Claim C9. When the pump reaches the dispatch (after the optional drop the oldest video
  segment holds a picture and the oldest audio segment holds at least one frame's worth
  of samples) and the policy is \<open>Invalid\<close>, \<^verbatim>\<open>put_frames\<close> throws \<open>invalid_operation\<close>;
  the output queue of the state it leaves is the one it started with.
\<close>

theorem put_frames_invalid_throws:
  assumes "display_mode s = Invalid"
    and "video_streams (truncate s) = v # vs" and "v \<noteq> []"
    and "audio_streams (truncate s) = a # as" and "spf s \<le> length a"
  shows "put_frames s = Thrown (truncate s) \<and> frame_buffer (truncate s) = frame_buffer s"
  using assms by (simp add: put_frames_def Let_def front_def)

theorem put_frames_invalid_throws_witness:
  "put_frames ((implementation 25 format0 False)
        \<lparr>video_streams := [[0]], audio_streams := [[1, 2]], store := [empty_write_frame]\<rparr>)
     = Thrown ((implementation 25 format0 False)
        \<lparr>video_streams := [[0]], audio_streams := [[1, 2]], store := [empty_write_frame]\<rparr>)
   \<and> step (Push_audio (Some [1, 2]))
        (the (run [Push_video (Some placeholder) []] (implementation 25 format0 False)))
     = Thrown (the (run [Push_video (Some placeholder) [], Push_audio (Some [1, 2])]
         (implementation 25 format0 False)))
   \<and> frame_buffer (the (run [Push_video (Some placeholder) [], Push_audio (Some [1, 2])]
         (implementation 25 format0 False))) = []"
proof -
  let ?s = "(implementation 25 format0 False)
        \<lparr>video_streams := [[0]], audio_streams := [[1, 2]], store := [empty_write_frame]\<rparr>"
  have t: "truncate ?s = ?s" by (simp add: truncate_def implementation_def)
  have "put_frames ?s = Thrown (truncate ?s) \<and> frame_buffer (truncate ?s) = frame_buffer ?s"
    by (rule put_frames_invalid_throws [where v = "[0]" and vs = "[]" and a = "[1, 2]" and as = "[]"])
       (simp_all add: t, simp_all add: implementation_def format0_def)
  then have 1: "put_frames ?s = Thrown ?s" by (simp only: t)
  have 2: "step (Push_audio (Some [1, 2]))
        (the (run [Push_video (Some placeholder) []] (implementation 25 format0 False)))
     = Thrown (the (run [Push_video (Some placeholder) [], Push_audio (Some [1, 2])]
         (implementation 25 format0 False)))"
    by (simp add: muxer_defs format0_def placeholder_def)
  have 3: "frame_buffer (the (run [Push_video (Some placeholder) [], Push_audio (Some [1, 2])]
         (implementation 25 format0 False))) = []"
    by (simp add: muxer_defs format0_def placeholder_def)
  from 1 2 3 show ?thesis by blast
qed

subsection \<open>The readiness predicates\<close>

text \<open>
  The claim C6 as stated fails for \<^verbatim>\<open>audio_ready\<close>: with two samples per frame and
  three samples in the newest audio segment, the segment holds more than one frame's
  worth of samples and the segment counts are equal, yet \<^verbatim>\<open>audio_ready\<close> is false.
\<close>

theorem audio_ready_counterexample:
  "audio_ready (the (run [Push_audio (Some [1, 2, 3])] (implementation 25 format0 False))) = Inr False
   \<and> length (last (audio_streams (the (run [Push_audio (Some [1, 2, 3])] (implementation 25 format0 False)))))
       > spf (the (run [Push_audio (Some [1, 2, 3])] (implementation 25 format0 False)))
   \<and> length (audio_streams (the (run [Push_audio (Some [1, 2, 3])] (implementation 25 format0 False))))
       \<ge> length (video_streams (the (run [Push_audio (Some [1, 2, 3])] (implementation 25 format0 False))))"
  by (simp add: muxer_defs format0_def audio_ready_def audio_chunks_def)

text \<open>
  Claim C6, amended. With both segment lists non-empty and a positive samples-per-frame
  constant, \<^verbatim>\<open>video_ready\<close> is true exactly when the newest video segment holds more
  than one picture and there are at least as many video as audio segments, and
  \<^verbatim>\<open>audio_ready\<close> is true exactly when the newest audio segment holds at least two
  whole frames' worth of samples and there are at least as many audio as video segments.
\<close>

theorem readiness:
  assumes "video_streams s \<noteq> []" and "audio_streams s \<noteq> []" and "0 < spf s"
  shows "video_ready s =
           Inr (length (last (video_streams s)) > 1
                \<and> length (video_streams s) \<ge> length (audio_streams s))
       \<and> audio_ready s =
           Inr (2 * spf s \<le> length (last (audio_streams s))
                \<and> length (audio_streams s) \<ge> length (video_streams s))"
proof -
  have "(1 < length (last (audio_streams s)) div spf s) = (2 * spf s \<le> length (last (audio_streams s)))"
    using assms(3) by (metis Suc_1 Suc_le_eq less_eq_div_iff_mult_less_eq)
  then show ?thesis using assms
    by (auto simp: video_ready_def audio_ready_def video_frames_def audio_chunks_def
        split: list.splits)
qed

theorem readiness_witness:
  "video_ready ((implementation 25 format0 False)\<lparr>audio_streams := [[1, 2, 3, 4]]\<rparr>) = Inr False
   \<and> audio_ready ((implementation 25 format0 False)\<lparr>audio_streams := [[1, 2, 3, 4]]\<rparr>) = Inr True"
  using readiness [of "(implementation 25 format0 False)\<lparr>audio_streams := [[1, 2, 3, 4]]\<rparr>"]
  by (simp add: implementation_def format0_def)

subsection \<open>The policy is kept\<close>

lemma truncate_segments [simp]: "segments_present s \<Longrightarrow> segments_present (truncate s)"
  by (rule segments_present_truncate)

lemma pump_preserves_keeps: "pump_preserves (keeps c)"
  unfolding pump_preserves_def
proof (intro conjI allI impI)
  fix s assume k: "keeps c s"
  then obtain v vs a as where va: "video_streams s = v # vs" "audio_streams s = a # as"
    by (auto simp: keeps_def segments_present_def neq_Nil_conv)
  show "segments_present s" using k by (simp add: keeps_def)
  show "keeps c (truncate s)" using k by (simp add: keeps_def)
  show "holds (keeps c) (simple s)" using k by (simp add: simple_eq [OF va] keeps_def segments_present_def va)
  show "holds (keeps c) (duplicate s)" using k by (simp add: duplicate_eq [OF va] keeps_def segments_present_def va)
  show "holds (keeps c) (half s)" using k by (simp add: half_eq [OF va] keeps_def segments_present_def va)
  show "holds (keeps c) (interlace s)" using k by (simp add: interlace_eq [OF va] keeps_def segments_present_def va)
qed

lemma admission_preserves_keeps: "admission_preserves (keeps c)"
  unfolding admission_preserves_def
proof (intro conjI allI impI)
  show "pump_preserves (keeps c)" by (rule pump_preserves_keeps)
next
  fix s and f :: write_frame assume "keeps c s \<and> audio_data f = []"
  then show "holds (keeps c) (push_back_video (fst (new_frame f s)) (snd (new_frame f s)))"
    by (auto simp: keeps_def segments_present_def push_back_video_def new_frame_def front_def split: list.splits)
next
  fix s samples assume "keeps c s"
  then show "holds (keeps c) (push_back_audio samples s)"
    by (auto simp: keeps_def segments_present_def push_back_audio_def Let_def front_def split: list.splits)
qed

lemma keeps_refl: "segments_present s \<Longrightarrow> keeps s s"
  by (simp add: keeps_def)

lemma keeps_after_step:
  assumes k: "keeps c s" and s': "state_after (step x s) = Some s'"
    and x: "real_picture x \<Longrightarrow> display_mode c \<noteq> Invalid"
  shows "keeps c s'"
proof (cases x)
  case (Push_video vfo ys)
  show ?thesis
  proof (cases vfo)
    case None
    with s' Push_video k show ?thesis
      by (auto simp: push_video_def keeps_def segments_present_def)
  next
    case (Some vf)
    have "holds (keeps c) (push_video (Some vf) ys s)"
    proof (rule holds_push_video_picture [OF admission_preserves_keeps k])
      assume "data0 vf \<noteq> None" "display_mode s = Invalid"
      with x Push_video Some k show "keeps c (decide_display_mode vf s)"
        by (simp add: keeps_def)
    qed
    with s' Push_video Some show ?thesis by (cases "push_video (Some vf) ys s") simp_all
  qed
next
  case (Push_audio smp)
  show ?thesis
  proof (cases smp)
    case None
    with s' Push_audio k show ?thesis
      by (auto simp: push_audio_def keeps_def segments_present_def split: if_splits)
  next
    case (Some samples)
    have "holds (keeps c) (push_audio (Some samples) s)"
      by (rule holds_push_audio_samples [OF admission_preserves_keeps k])
    with s' Push_audio Some show ?thesis by (cases "push_audio (Some samples) s") simp_all
  qed
next
  case Pop
  with s' k show ?thesis
    by (auto simp: pop_def and_then_def keeps_def segments_present_def split: list.splits)
qed

lemma keeps_after_run:
  assumes "display_mode c \<noteq> Invalid"
  shows "keeps c s \<Longrightarrow> run xs s = Some s' \<Longrightarrow> keeps c s'"
proof (induction xs arbitrary: s)
  case Nil
  then show ?case by simp
next
  case (Cons x xs)
  from Cons.prems(2) obtain s1 where s1: "state_after (step x s) = Some s1" and r: "run xs s1 = Some s'"
    by (auto split: option.splits)
  have "keeps c s1" using Cons.prems(1) s1 assms by (rule keeps_after_step)
  then show ?case using r by (rule Cons.IH)
qed

lemma reachable_segments_present:
  "run xs (implementation fps_in desc auto) = Some s \<Longrightarrow> segments_present s"
  by (rule run_invariant [OF invariant_segments_present])
     (simp_all add: segments_present_def implementation_def)

text \<open>
  The claim C3 as stated fails: in auto mode a 50 fps instance with a progressive 25 fps
  target resolves \<open>Invalid\<close> on a first, interlaced, real picture; the assignment leaves
  the policy \<open>Invalid\<close>, and the second real picture, a progressive one, changes it to
  \<open>Half\<close>.
\<close>

theorem policy_counterexample:
  "display_mode (the (run [Push_video (Some interlaced_picture) []]
       (implementation 50 format0 True))) = Invalid
   \<and> display_mode (the (run [Push_video (Some interlaced_picture) [], Push_video (Some picture0) []]
       (implementation 50 format0 True))) = Half"
  by (simp add: muxer_defs format0_def picture0_def interlaced_picture_def)

text \<open>
  Claim C3, amended. In every state reached from a new instance, an operation changes the
  policy only if the policy is \<open>Invalid\<close> and the operation admits a real picture; and
  once the policy is not \<open>Invalid\<close>, no later sequence of operations changes it.
\<close>

theorem policy_fixed_once_valid:
  assumes "run xs (implementation fps_in desc auto) = Some s"
    and "state_after (step x s) = Some s'" and "run ys s' = Some s''"
  shows "(display_mode s' \<noteq> display_mode s \<longrightarrow> display_mode s = Invalid \<and> real_picture x)
       \<and> (display_mode s' \<noteq> Invalid \<longrightarrow> display_mode s'' = display_mode s')"
proof -
  have sp: "segments_present s" using assms(1) by (rule reachable_segments_present)
  have sp': "segments_present s'"
    by (rule after_step [OF invariant_segments_present sp assms(2)])
  have 1: "display_mode s' = display_mode s" if "\<not> (display_mode s = Invalid \<and> real_picture x)"
  proof -
    have "keeps s s'"
      by (rule keeps_after_step [OF keeps_refl [OF sp] assms(2)]) (use that in blast)
    then show ?thesis by (simp add: keeps_def)
  qed
  have 2: "display_mode s'' = display_mode s'" if "display_mode s' \<noteq> Invalid"
  proof -
    have "keeps s' s''"
      by (rule keeps_after_run [OF that keeps_refl [OF sp'] assms(3)])
    then show ?thesis by (simp add: keeps_def)
  qed
  from 1 2 show ?thesis by blast
qed

theorem policy_fixed_once_valid_witness:
  "display_mode (the (run [Push_video (Some picture0) []] (implementation 50 format0 True))) = Half
   \<and> display_mode (the (run [Push_video (Some interlaced_picture) [], Push_audio (Some [1, 2]), Pop]
        (the (run [Push_video (Some picture0) []] (implementation 50 format0 True))))) = Half"
proof -
  let ?s = "implementation 50 format0 True"
  let ?s' = "the (run [Push_video (Some picture0) []] ?s)"
  let ?ys = "[Push_video (Some interlaced_picture) [], Push_audio (Some [1, 2]), Pop]"
  have a: "run [] ?s = Some ?s" by simp
  have b: "state_after (step (Push_video (Some picture0) []) ?s) = Some ?s'"
    by (simp add: muxer_defs format0_def picture0_def)
  have c: "run ?ys ?s' = Some (the (run ?ys ?s'))"
    by (simp add: muxer_defs format0_def picture0_def interlaced_picture_def)
  have d: "display_mode ?s' = Half"
    by (simp add: muxer_defs format0_def picture0_def)
  from policy_fixed_once_valid [OF a b c] d show ?thesis by simp
qed

subsection \<open>The rescale override\<close>

lemma static_cast_int_small: "n < 2 ^ 31 \<Longrightarrow> static_cast_int n = int n"
  by (simp add: static_cast_int_def Let_def)




subsection \<open>The segment counts\<close>

lemma segment_gap_truncate: "segment_gap (truncate s) = segment_gap s"
  by (cases "video_streams s"; cases "audio_streams s")
     (auto simp: segment_gap_def truncate_def Let_def)

lemma pump_preserves_gap_is: "pump_preserves (gap_is d)"
  unfolding pump_preserves_def
proof (intro conjI allI impI)
  fix s assume k: "gap_is d s"
  then obtain v vs a as where va: "video_streams s = v # vs" "audio_streams s = a # as"
    by (auto simp: gap_is_def segments_present_def neq_Nil_conv)
  show "segments_present s" using k by (simp add: gap_is_def)
  show "gap_is d (truncate s)" using k by (simp add: gap_is_def segment_gap_truncate)
  show "holds (gap_is d) (simple s)" using k by (simp add: simple_eq [OF va] gap_is_def segments_present_def segment_gap_def va)
  show "holds (gap_is d) (duplicate s)" using k by (simp add: duplicate_eq [OF va] gap_is_def segments_present_def segment_gap_def va)
  show "holds (gap_is d) (half s)" using k by (simp add: half_eq [OF va] gap_is_def segments_present_def segment_gap_def va)
  show "holds (gap_is d) (interlace s)" using k by (simp add: interlace_eq [OF va] gap_is_def segments_present_def segment_gap_def va)
qed

lemma admission_preserves_gap_is: "admission_preserves (gap_is d)"
  unfolding admission_preserves_def
proof (intro conjI allI impI)
  show "pump_preserves (gap_is d)" by (rule pump_preserves_gap_is)
next
  fix s and f :: write_frame assume "gap_is d s \<and> audio_data f = []"
  then show "holds (gap_is d) (push_back_video (fst (new_frame f s)) (snd (new_frame f s)))"
    by (auto simp: gap_is_def segments_present_def segment_gap_def push_back_video_def new_frame_def front_def split: list.splits)
next
  fix s samples assume "gap_is d s"
  then show "holds (gap_is d) (push_back_audio samples s)"
    by (auto simp: gap_is_def segments_present_def segment_gap_def push_back_audio_def Let_def front_def split: list.splits)
qed

lemma gap_after_step:
  assumes k: "gap_is d s" and s': "state_after (step x s) = Some s'"
  shows "gap_is (d + reset_gap x) s'"
proof (cases x)
  case (Push_video vfo ys)
  show ?thesis
  proof (cases vfo)
    case None
    with s' Push_video k show ?thesis
      by (auto simp: push_video_def gap_is_def segments_present_def segment_gap_def)
  next
    case (Some vf)
    have "holds (gap_is d) (push_video (Some vf) ys s)"
    proof (rule holds_push_video_picture [OF admission_preserves_gap_is k])
      show "gap_is d (decide_display_mode vf s)"
        using k by (simp add: gap_is_def segments_present_def segment_gap_def decide_display_mode_def Let_def)
    qed
    with s' Push_video Some show ?thesis by (cases "push_video (Some vf) ys s") simp_all
  qed
next
  case (Push_audio smp)
  show ?thesis
  proof (cases smp)
    case None
    with s' Push_audio k show ?thesis
      by (auto simp: push_audio_def gap_is_def segments_present_def segment_gap_def split: if_splits)
  next
    case (Some samples)
    have "holds (gap_is d) (push_audio (Some samples) s)"
      by (rule holds_push_audio_samples [OF admission_preserves_gap_is k])
    with s' Push_audio Some show ?thesis by (cases "push_audio (Some samples) s") simp_all
  qed
next
  case Pop
  with s' k show ?thesis
    by (auto simp: pop_def and_then_def gap_is_def segments_present_def segment_gap_def split: list.splits)
qed

lemma gap_after_run:
  "gap_is d s \<Longrightarrow> run xs s = Some s' \<Longrightarrow> gap_is (d + sum_list (map reset_gap xs)) s'"
proof (induction xs arbitrary: s d)
  case Nil
  then show ?case by simp
next
  case (Cons x xs)
  from Cons.prems(2) obtain s1 where s1: "state_after (step x s) = Some s1" and r: "run xs s1 = Some s'"
    by (auto split: option.splits)
  have "gap_is (d + reset_gap x) s1" using Cons.prems(1) s1 by (rule gap_after_step)
  then have "gap_is (d + reset_gap x + sum_list (map reset_gap xs)) s'" using r by (rule Cons.IH)
  then show ?case by (simp add: add.assoc)
qed

text \<open>
  The claim C4 as stated fails: two video reset markers pushed into a new instance leave
  three video segments and one audio segment.
\<close>

theorem segment_gap_counterexample:
  "length (video_streams (the (run [Push_video None [], Push_video None []]
       (implementation 25 format0 False)))) = 3
   \<and> length (audio_streams (the (run [Push_video None [], Push_video None []]
       (implementation 25 format0 False)))) = 1"
  by (simp add: muxer_defs)

text \<open>
  Claim C4, amended. In every state reached from a new instance, the number of video
  segments minus the number of audio segments is the number of video reset markers
  pushed minus the number of audio reset markers pushed: the pump drops segments in
  pairs, and nothing else bounds the difference.
\<close>

theorem segment_gap_counts_resets:
  assumes "run xs (implementation fps_in desc auto) = Some s"
  shows "int (length (video_streams s)) - int (length (audio_streams s))
           = sum_list (map reset_gap xs)"
proof -
  have "gap_is 0 (implementation fps_in desc auto)"
    by (simp add: gap_is_def segments_present_def segment_gap_def implementation_def)
  from gap_after_run [OF this assms] show ?thesis by (simp add: gap_is_def segment_gap_def)
qed

theorem segment_gap_counts_resets_witness:
  "int (length (video_streams (the (run [Push_video None [], Push_video (Some picture0) [],
       Push_audio None, Push_audio (Some [1, 2]), Push_video None []] (implementation 25 format0 False)))))
   - int (length (audio_streams (the (run [Push_video None [], Push_video (Some picture0) [],
       Push_audio None, Push_audio (Some [1, 2]), Push_video None []] (implementation 25 format0 False)))))
   = 1"
proof -
  let ?r = "run [Push_video None [], Push_video (Some picture0) [],
       Push_audio None, Push_audio (Some [1, 2]), Push_video None []] (implementation 25 format0 False)"
  have r: "?r = Some (the ?r)" by (simp add: muxer_defs format0_def picture0_def)
  from segment_gap_counts_resets [OF r] show ?thesis by simp
qed

subsection \<open>Buffered pictures and output frames\<close>

lemma silent_update: "b \<noteq> a \<Longrightarrow> silent (st[a := x]) b = silent st b"
  by (simp add: silent_def)

lemma silent_append: "silent st b \<Longrightarrow> silent (st @ [x]) b"
  by (simp add: silent_def nth_append)

lemma frame_audio_update:
  "a \<notin> set (frame_addrs f) \<Longrightarrow> frame_audio (st[a := x]) f = frame_audio st f"
  by (cases f) (auto simp: frame_audio_def)

lemma complete_update:
  "a \<notin> set (frame_addrs f) \<Longrightarrow> complete n (st[a := x]) f = complete n st f"
  by (simp add: complete_def frame_audio_update)

lemma complete_append: "complete n st f \<Longrightarrow> complete n (st @ [x]) f"
  by (cases f) (auto simp: complete_def frame_audio_def nth_append)

lemma addrs_append [simp]: "addrs (xs @ ys) = addrs xs @ addrs ys"
  by (simp add: addrs_def)

lemma addrs_simps [simp]: "addrs [] = []" "addrs (f # fs) = frame_addrs f @ addrs fs"
  by (simp_all add: addrs_def)

lemma in_addrs: "f \<in> set frames \<Longrightarrow> a \<in> set (frame_addrs f) \<Longrightarrow> a \<in> set (addrs frames)"
  by (auto simp: addrs_def)

lemma frames_inv_bounds:
  assumes "frames_inv n q frames st"
  shows "\<forall>a \<in> set (q @ addrs frames). a < length st"
  using assms by (auto simp: frames_inv_def silent_def complete_def addrs_def)

text \<open>Dropping queued pictures keeps the invariant.\<close>

lemma frames_inv_drop:
  assumes "frames_inv n q frames st" and "set q' \<subseteq> set q" and "distinct q'"
  shows "frames_inv n q' frames st"
  using assms by (auto simp: frames_inv_def)

text \<open>Dropping output frames from the front keeps the invariant.\<close>

lemma frames_inv_pop:
  assumes "frames_inv n q (f # frames) st"
  shows "frames_inv n q frames st"
  using assms by (auto simp: frames_inv_def)

text \<open>A new frame without audio enters the queue.\<close>

lemma frames_inv_enqueue:
  assumes inv: "frames_inv n q frames st" and f: "audio_data f = []"
  shows "frames_inv n (q @ [length st]) frames (st @ [f])"
proof -
  from frames_inv_bounds [OF inv] have "length st \<notin> set (q @ addrs frames)" by auto
  then have "distinct ((q @ [length st]) @ addrs frames)"
    using inv by (auto simp: frames_inv_def)
  moreover have "silent (st @ [f]) (length st)" using f by (simp add: silent_def)
  ultimately show ?thesis using inv
    by (auto simp: frames_inv_def silent_append complete_append)
qed

text \<open>A copy that carries one frame's worth of samples enters the output queue.\<close>

lemma frames_inv_copy:
  assumes inv: "frames_inv n q frames st" and c: "length (audio_data c) = n"
  shows "frames_inv n q (frames @ [Frame (length st)]) (st @ [c])"
proof -
  from frames_inv_bounds [OF inv] have "length st \<notin> set (q @ addrs frames)" by auto
  then have "distinct (q @ addrs (frames @ [Frame (length st)]))"
    using inv by (auto simp: frames_inv_def)
  moreover have "complete n (st @ [c]) (Frame (length st))"
    using c by (simp add: complete_def frame_audio_def)
  ultimately show ?thesis using inv
    by (auto simp: frames_inv_def silent_append complete_append)
qed

text \<open>
  The oldest picture \<open>f\<close> gets one frame's worth of samples and leaves the queue for
  the output queue, alone or interlaced with the picture \<open>b\<close> behind it.
\<close>

lemma frames_inv_emit:
  assumes inv: "frames_inv n (f # q) frames st"
    and smp: "length smp = n"
    and g: "g = Frame f \<and> q' = q \<or> (\<exists>b m. g = Interlaced f b m \<and> q = b # q')"
  shows "frames_inv n q' (frames @ [g]) (st[f := (st ! f)\<lparr>audio_data := smp\<rparr>])"
proof -
  let ?st' = "st[f := (st ! f)\<lparr>audio_data := smp\<rparr>]"
  from inv have d: "distinct ((f # q) @ addrs frames)"
    and sil: "\<forall>a \<in> set (f # q). silent st a"
    and comp: "\<forall>h \<in> set frames. complete n st h"
    by (auto simp: frames_inv_def)
  have fl: "f < length st" using sil by (simp add: silent_def)
  have f_out: "f \<notin> set (frame_addrs h)" if "h \<in> set frames" for h
    using d in_addrs [OF that] by auto
  have sub: "set q' \<subseteq> set q" using g by auto
  have 1: "distinct (q' @ addrs (frames @ [g]))"
    using d g by auto
  have 2: "silent ?st' a" if "a \<in> set q'" for a
  proof -
    from that sub d have "a \<noteq> f" by auto
    moreover from that sub sil have "silent st a" by auto
    ultimately show ?thesis by (simp add: silent_update)
  qed
  have 3: "complete n ?st' h" if "h \<in> set frames" for h
    using comp that f_out [OF that] by (simp add: complete_update)
  have 4: "complete n ?st' g"
    using g
  proof
    assume "g = Frame f \<and> q' = q"
    then show ?thesis using fl smp by (simp add: complete_def frame_audio_def)
  next
    assume "\<exists>b m. g = Interlaced f b m \<and> q = b # q'"
    then obtain b m where gb: "g = Interlaced f b m" and b: "q = b # q'" by blast
    from b d have "b \<noteq> f" by auto
    moreover from b sil have "silent st b" by auto
    ultimately show ?thesis using fl smp gb by (simp add: complete_def frame_audio_def silent_def)
  qed
  show ?thesis using 1 2 3 4 by (auto simp: frames_inv_def)
qed

lemma queued_simps [simp]:
  "queued (s\<lparr>video_streams := vs\<rparr>) = concat vs"
  "queued (s\<lparr>audio_streams := as\<rparr>) = queued s"
  "queued (s\<lparr>frame_buffer := fb\<rparr>) = queued s"
  "queued (s\<lparr>store := st\<rparr>) = queued s"
  "queued (s\<lparr>logged := lg\<rparr>) = queued s"
  "queued (s\<lparr>display_mode := dm\<rparr>) = queued s"
  "queued (s\<lparr>filter_desc := fl\<rparr>) = queued s"
  "queued (s\<lparr>audio_sample_count := k\<rparr>) = queued s"
  "queued (s\<lparr>video_frame_count := k\<rparr>) = queued s"
  by (simp_all add: queued_def)

lemma concat_push_back:
  "vs \<noteq> [] \<Longrightarrow> concat (butlast vs) @ last vs @ ys = concat vs @ ys"
  by (induction vs) auto

lemma frames_ok_truncate: "frames_ok desc s \<Longrightarrow> frames_ok desc (truncate s)"
proof -
  assume ok: "frames_ok desc s"
  then obtain v vs a as where va: "video_streams s = v # vs" "audio_streams s = a # as"
    by (auto simp: frames_ok_def segments_present_def neq_Nil_conv)
  show ?thesis
  proof (cases "truncate s = s")
    case True
    with ok show ?thesis by simp
  next
    case False
    then have t: "truncate s = s\<lparr>logged := logged (truncate s), video_streams := vs, audio_streams := as\<rparr>"
      and ne: "vs \<noteq> []" "as \<noteq> []"
      using va by (auto simp: truncate_def Let_def split: if_splits)
    from ok va have inv: "frames_inv (audio_samples_per_frame desc) (v @ concat vs) (frame_buffer s) (store s)"
      by (simp add: frames_ok_def queued_def)
    then have "distinct (concat vs)" by (simp add: frames_inv_def)
    with inv have "frames_inv (audio_samples_per_frame desc) (concat vs) (frame_buffer s) (store s)"
      by (intro frames_inv_drop [OF inv]) auto
    then have "frames_ok desc (s\<lparr>logged := logged (truncate s), video_streams := vs, audio_streams := as\<rparr>)"
      using ok ne by (simp add: frames_ok_def segments_present_def)
    with t show ?thesis by simp
  qed
qed


lemma pump_preserves_frames_ok: "pump_preserves (frames_ok desc)"
  unfolding pump_preserves_def
proof (intro conjI allI impI)
  fix s assume ok: "frames_ok desc s"
  then obtain v vs a as where va: "video_streams s = v # vs" "audio_streams s = a # as"
    by (auto simp: frames_ok_def segments_present_def neq_Nil_conv)
  from ok have fd: "format_desc s = desc" by (simp add: frames_ok_def)
  let ?n = "audio_samples_per_frame desc"
  from ok va have inv: "frames_inv ?n (v @ concat vs) (frame_buffer s) (store s)"
    by (simp add: frames_ok_def queued_def)
  show "segments_present s" using ok by (simp add: frames_ok_def)
  show "frames_ok desc (truncate s)" using ok by (rule frames_ok_truncate)
  show "holds (frames_ok desc) (simple s)"
  proof (cases "v = [] \<or> length a < ?n")
    case True
    then show ?thesis using ok by (auto simp: simple_eq [OF va] fd)
  next
    case False
    then obtain f v' where v: "v = f # v'" by (cases v) auto
    from inv v have "frames_inv ?n (f # v' @ concat vs) (frame_buffer s) (store s)" by simp
    then have "frames_inv ?n (v' @ concat vs) (frame_buffer s @ [Frame f])
                 ((store s)[f := (store s ! f)\<lparr>audio_data := take ?n a\<rparr>])"
      using False by (intro frames_inv_emit) auto
    then show ?thesis using False v ok
      by (simp add: simple_eq [OF va] fd frames_ok_def segments_present_def)
  qed
  show "holds (frames_ok desc) (half s)"
  proof (cases "length v < 2 \<or> length a < ?n")
    case True
    then show ?thesis using ok by (auto simp: half_eq [OF va] fd)
  next
    case False
    then obtain f b v' where v: "v = f # b # v'" by (cases v; cases "tl v") auto
    from inv v have i: "frames_inv ?n (f # b # v' @ concat vs) (frame_buffer s) (store s)" by simp
    then have "frames_inv ?n (b # v' @ concat vs) (frame_buffer s @ [Frame f])
                 ((store s)[f := (store s ! f)\<lparr>audio_data := take ?n a\<rparr>])"
      using False by (intro frames_inv_emit) auto
    then have "frames_inv ?n (v' @ concat vs) (frame_buffer s @ [Frame f])
                 ((store s)[f := (store s ! f)\<lparr>audio_data := take ?n a\<rparr>])"
      by (rule frames_inv_drop) (use i in \<open>auto simp: frames_inv_def\<close>)
    then show ?thesis using False v ok
      by (simp add: half_eq [OF va] fd frames_ok_def segments_present_def)
  qed
  show "holds (frames_ok desc) (interlace s)"
  proof (cases "length v < 2 \<or> length a < ?n")
    case True
    then show ?thesis using ok by (auto simp: interlace_eq [OF va] fd)
  next
    case False
    then obtain f b v' where v: "v = f # b # v'" by (cases v; cases "tl v") auto
    from inv v have "frames_inv ?n (f # b # v' @ concat vs) (frame_buffer s) (store s)" by simp
    then have "frames_inv ?n (v' @ concat vs) (frame_buffer s @ [Interlaced f b (fmt_mode desc)])
                 ((store s)[f := (store s ! f)\<lparr>audio_data := take ?n a\<rparr>])"
      using False by (intro frames_inv_emit) auto
    then show ?thesis using False v ok
      by (simp add: interlace_eq [OF va] fd frames_ok_def segments_present_def)
  qed
  show "holds (frames_ok desc) (duplicate s)"
  proof (cases "v = [] \<or> length a div 2 < ?n")
    case True
    then show ?thesis using ok by (auto simp: duplicate_eq [OF va] fd)
  next
    case False
    then obtain f v' where v: "v = f # v'" by (cases v) auto
    from False have len: "?n \<le> length a" "?n \<le> length a - ?n" by linarith+
    let ?c = "(store s ! f)\<lparr>audio_data := take ?n a\<rparr>"
    let ?st1 = "store s @ [?c]"
    from inv v have "frames_inv ?n (f # v' @ concat vs) (frame_buffer s) (store s)" by simp
    then have "frames_inv ?n (f # v' @ concat vs) (frame_buffer s @ [Frame (length (store s))]) ?st1"
      using len by (intro frames_inv_copy) simp_all
    then have "frames_inv ?n (v' @ concat vs)
                 ((frame_buffer s @ [Frame (length (store s))]) @ [Frame f])
                 (?st1[f := (?st1 ! f)\<lparr>audio_data := take ?n (drop ?n a)\<rparr>])"
      using len by (intro frames_inv_emit) auto
    then show ?thesis using False v ok
      by (simp add: duplicate_eq [OF va] fd frames_ok_def segments_present_def)
  qed
qed

lemma admission_preserves_frames_ok: "admission_preserves (frames_ok desc)"
  unfolding admission_preserves_def
proof (intro conjI allI impI)
  show "pump_preserves (frames_ok desc)" by (rule pump_preserves_frames_ok)
next
  fix s and f :: write_frame assume a: "frames_ok desc s \<and> audio_data f = []"
  then have ok: "frames_ok desc s" and f: "audio_data f = []" by auto
  from ok have ne: "video_streams s \<noteq> []" by (simp add: frames_ok_def segments_present_def)
  from ok have "frames_inv (audio_samples_per_frame desc) (queued s) (frame_buffer s) (store s)"
    by (simp add: frames_ok_def)
  then have "frames_inv (audio_samples_per_frame desc) (queued s @ [length (store s)])
               (frame_buffer s) (store s @ [f])"
    using f by (rule frames_inv_enqueue)
  then have "frames_ok desc (s\<lparr>store := store s @ [f],
          video_streams := butlast (video_streams s) @ [last (video_streams s) @ [length (store s)]],
          video_frame_count := video_frame_count s + 1\<rparr>)"
    using ok ne
    by (simp add: frames_ok_def segments_present_def concat_push_back queued_def)
  then show "holds (frames_ok desc) (push_back_video (fst (new_frame f s)) (snd (new_frame f s)))"
    using ne by (auto simp: push_back_video_def new_frame_def front_def split: list.splits)
next
  fix s samples assume "frames_ok desc s"
  then show "holds (frames_ok desc) (push_back_audio samples s)"
    by (auto simp: frames_ok_def segments_present_def push_back_audio_def
        Let_def front_def split: list.splits)
qed

lemma invariant_frames_ok: "invariant (frames_ok desc)"
  unfolding invariant_def
proof (intro conjI allI impI)
  show "admission_preserves (frames_ok desc)" by (rule admission_preserves_frames_ok)
next
  fix s vf assume "frames_ok desc s \<and> display_mode s = Invalid"
  then show "frames_ok desc (decide_display_mode vf s)"
    by (simp add: frames_ok_def segments_present_def decide_display_mode_def Let_def)
next
  fix s ys assume "frames_ok desc s"
  then show "holds (frames_ok desc) (push_video None ys s)"
    by (simp add: frames_ok_def segments_present_def push_video_def queued_def)
next
  fix s s' assume "frames_ok desc s \<and> push_audio None s = Done s'"
  then show "frames_ok desc s'"
    by (auto simp: frames_ok_def segments_present_def push_audio_def split: if_splits)
next
  fix s frame s' assume "frames_ok desc s \<and> pop s = Inr (frame, s')"
  then show "frames_ok desc s'"
    by (auto simp: frames_ok_def segments_present_def pop_def
        split: list.splits dest: frames_inv_pop)
qed

text \<open>
  Claim C2. In every state reached from a new instance, under every policy, every frame
  of the output queue carries exactly the target format's samples-per-frame number of
  audio samples (for an interlaced composite: the samples of its two pictures).
\<close>

theorem output_audio_length:
  assumes "run xs (implementation fps_in desc auto) = Some s" and "f \<in> set (frame_buffer s)"
  shows "length (frame_audio (store s) f) = audio_samples_per_frame desc"
proof -
  have "frames_ok desc (implementation fps_in desc auto)"
    by (simp add: frames_ok_def segments_present_def queued_def frames_inv_def implementation_def)
  then have "frames_ok desc s"
    using assms(1) by (rule run_invariant [OF invariant_frames_ok])
  with assms(2) show ?thesis by (simp add: frames_ok_def frames_inv_def complete_def)
qed

theorem output_audio_length_witness:
  "frame_buffer (the (run [Push_video (Some picture0) [], Push_video (Some picture0) [],
        Push_audio (Some [1, 2, 3])] (implementation 50 interlaced_format True)))
     = [Interlaced 0 1 upper]
   \<and> length (frame_audio (store (the (run [Push_video (Some picture0) [],
        Push_video (Some picture0) [], Push_audio (Some [1, 2, 3])]
        (implementation 50 interlaced_format True)))) (Interlaced 0 1 upper)) = 2"
proof -
  let ?r = "run [Push_video (Some picture0) [], Push_video (Some picture0) [],
        Push_audio (Some [1, 2, 3])] (implementation 50 interlaced_format True)"
  have r: "?r = Some (the ?r)"
    by (simp add: muxer_defs interlaced_format_def picture0_def)
  have fb: "frame_buffer (the ?r) = [Interlaced 0 1 upper]"
    by (simp add: muxer_defs interlaced_format_def picture0_def)
  then have "Interlaced 0 1 upper \<in> set (frame_buffer (the ?r))" by simp
  from output_audio_length [OF r this] fb show ?thesis
    by (simp add: interlaced_format_def)
qed

subsection \<open>The duplicate policy\<close>

lemma duplicate_modes:
  "get_display_mode im fi om fo = Duplicate \<Longrightarrow> im = progressive \<and> om = progressive"
  by (simp add: get_display_mode_def split: if_splits)

lemmas push_defs = implementation_def push_video_def push_audio_def put_frames_def truncate_def
  simple_def duplicate_def half_def interlace_def front_def and_then_def pop_video_def pop_audio_def
  push_back_dest_def set_audio_data_def new_frame_def push_back_video_def push_back_audio_def
  decide_display_mode_def execute_def make_write_frame_def empty_write_frame_def fix_field_order_def
  basic_frame_interlace_def pop_def static_cast_int_def Let_def

text \<open>
  Claim C7. A new instance in auto mode whose resolver yields \<open>Duplicate\<close> for the
  picture: pushing one real picture and then twice samples-per-frame samples returns
  normally and leaves exactly two output frames. The first is a new object (address 1),
  a copy of the picture's frame, and carries the first half of the samples; the second is
  the picture's own frame (address 0) and carries the second half. Both hold the
  picture's content, and their audio blocks in output order make up the pushed samples.
\<close>

theorem duplicate_law:
  assumes dm: "get_display_mode (av_mode p) fps_in (fmt_mode desc) (fmt_fps desc) = Duplicate"
    and real: "data0 p \<noteq> None"
    and len: "length samples = 2 * audio_samples_per_frame desc"
  shows "\<exists>s1 s2. push_video (Some p) ys (implementation fps_in desc True) = Done s1
           \<and> push_audio (Some samples) s1 = Done s2
           \<and> frame_buffer s2 = [Frame 1, Frame 0]
           \<and> store s2 = [(make_write_frame p)\<lparr>audio_data := drop (audio_samples_per_frame desc) samples\<rparr>,
                          (make_write_frame p)\<lparr>audio_data := take (audio_samples_per_frame desc) samples\<rparr>]
           \<and> image (store s2 ! 1) = data0 p \<and> image (store s2 ! 0) = data0 p
           \<and> audio_data (store s2 ! 1) @ audio_data (store s2 ! 0) = samples"
proof -
  from duplicate_modes [OF dm] have m: "av_mode p = progressive" "fmt_mode desc = progressive" by auto
  let ?n = "audio_samples_per_frame desc"
  show ?thesis
  proof (cases "?n = 0")
    case True
    with len have "samples = []" by simp
    with True dm real m show ?thesis
      by (simp add: push_defs)
  next
    case False
    with len dm real m show ?thesis
      by (simp add: push_defs)
  qed
qed


theorem duplicate_law_witness:
  "frame_buffer (the (run [Push_video (Some picture0) [], Push_audio (Some [1, 2, 3, 4])]
       (implementation 12 format0 True))) = [Frame 1, Frame 0]
   \<and> map audio_data (store (the (run [Push_video (Some picture0) [],
       Push_audio (Some [1, 2, 3, 4])] (implementation 12 format0 True)))) = [[3, 4], [1, 2]]
   \<and> map image (store (the (run [Push_video (Some picture0) [],
       Push_audio (Some [1, 2, 3, 4])] (implementation 12 format0 True))))
       = [Some [1, 2, 3], Some [1, 2, 3]]"
proof -
  have "get_display_mode (av_mode picture0) 12 (fmt_mode format0) (fmt_fps format0) = Duplicate"
    "data0 picture0 \<noteq> None"
    "length [1, 2, 3, 4 :: sample] = 2 * audio_samples_per_frame format0"
    by (simp_all add: get_display_mode_def epsilon_def picture0_def format0_def)
  from duplicate_law [OF this, of "[]"]
  obtain s1 s2 where 1: "push_video (Some picture0) [] (implementation 12 format0 True) = Done s1"
    and 2: "push_audio (Some [1, 2, 3, 4]) s1 = Done s2"
    and fb: "frame_buffer s2 = [Frame 1, Frame 0]"
    and st: "store s2 = [(make_write_frame picture0)\<lparr>audio_data := drop (audio_samples_per_frame format0) [1, 2, 3, 4]\<rparr>,
                          (make_write_frame picture0)\<lparr>audio_data := take (audio_samples_per_frame format0) [1, 2, 3, 4]\<rparr>]"
    by blast
  have r: "run [Push_video (Some picture0) [], Push_audio (Some [1, 2, 3, 4])]
       (implementation 12 format0 True) = Some s2"
    using 1 2 by simp
  show ?thesis unfolding r using fb st
    by (simp add: make_write_frame_def picture0_def format0_def)
qed

subsection \<open>Truncation at a reset boundary\<close>

lemma holds_put_frames_truncated:
  assumes pp: "pump_preserves P" and Pt: "P (truncate s)"
  shows "holds P (put_frames s)"
proof -
  let ?t = "truncate s"
  have "segments_present ?t" using pp Pt unfolding pump_preserves_def by blast
  then obtain v vs a as where v: "video_streams ?t = v # vs" and a: "audio_streams ?t = a # as"
    by (auto simp: segments_present_def neq_Nil_conv)
  from pp Pt have c: "holds P (simple ?t)" "holds P (duplicate ?t)" "holds P (half ?t)"
    "holds P (interlace ?t)"
    unfolding pump_preserves_def by blast+
  have d: "holds P (dispatch (display_mode ?t) ?t)"
    using c Pt by (cases "display_mode ?t") simp_all
  show ?thesis using v a Pt d by (simp add: put_frames_def Let_def front_def)
qed

lemma counts_ok_truncate: "counts_ok s \<Longrightarrow> counts_ok (truncate s)"
  by (cases "video_streams s"; cases "audio_streams s")
     (auto simp: counts_ok_def segments_present_def truncate_def Let_def)

lemma pump_preserves_counts_ok: "pump_preserves counts_ok"
  unfolding pump_preserves_def
proof (intro conjI allI impI)
  fix s assume k: "counts_ok s"
  then obtain v vs a as where va: "video_streams s = v # vs" "audio_streams s = a # as"
    by (auto simp: counts_ok_def segments_present_def neq_Nil_conv)
  show "segments_present s" using k by (simp add: counts_ok_def)
  show "counts_ok (truncate s)" using k by (rule counts_ok_truncate)
  show "holds counts_ok (simple s)" using k by (simp add: simple_eq [OF va] counts_ok_def segments_present_def va)
  show "holds counts_ok (duplicate s)" using k by (simp add: duplicate_eq [OF va] counts_ok_def segments_present_def va)
  show "holds counts_ok (half s)" using k by (simp add: half_eq [OF va] counts_ok_def segments_present_def va)
  show "holds counts_ok (interlace s)" using k by (simp add: interlace_eq [OF va] counts_ok_def segments_present_def va)
qed

lemma invariant_counts_ok: "invariant counts_ok"
  unfolding invariant_def admission_preserves_def
proof (intro conjI allI impI)
  show "pump_preserves counts_ok" by (rule pump_preserves_counts_ok)
next
  fix s and f :: write_frame assume "counts_ok s \<and> audio_data f = []"
  then show "holds counts_ok (push_back_video (fst (new_frame f s)) (snd (new_frame f s)))"
    by (auto simp: counts_ok_def segments_present_def push_back_video_def new_frame_def front_def split: list.splits)
next
  fix s samples assume "counts_ok s"
  then show "holds counts_ok (push_back_audio samples s)"
    by (auto simp: counts_ok_def segments_present_def push_back_audio_def Let_def front_def split: list.splits)
next
  fix s vf assume "counts_ok s \<and> display_mode s = Invalid"
  then show "counts_ok (decide_display_mode vf s)"
    by (simp add: counts_ok_def segments_present_def decide_display_mode_def Let_def)
next
  fix s ys assume "counts_ok s"
  then show "holds counts_ok (push_video None ys s)"
    by (simp add: counts_ok_def segments_present_def push_video_def)
next
  fix s s' assume "counts_ok s \<and> push_audio None s = Done s'"
  then show "counts_ok s'"
    by (auto simp: counts_ok_def segments_present_def push_audio_def split: if_splits)
next
  fix s frame s' assume "counts_ok s \<and> pop s = Inr (frame, s')"
  then show "counts_ok s'"
    by (auto simp: counts_ok_def segments_present_def pop_def split: list.splits)
qed

lemma log_ok_truncate: "log_ok s \<Longrightarrow> log_ok (truncate s)"
  by (cases "video_streams s"; cases "audio_streams s")
     (auto simp: log_ok_def segments_present_def truncate_def Let_def)

lemma pump_preserves_log_ok: "pump_preserves log_ok"
  unfolding pump_preserves_def
proof (intro conjI allI impI)
  fix s assume k: "log_ok s"
  then obtain v vs a as where va: "video_streams s = v # vs" "audio_streams s = a # as"
    by (auto simp: log_ok_def segments_present_def neq_Nil_conv)
  show "segments_present s" using k by (simp add: log_ok_def)
  show "log_ok (truncate s)" using k by (rule log_ok_truncate)
  show "holds log_ok (simple s)" using k by (simp add: simple_eq [OF va] log_ok_def segments_present_def va)
  show "holds log_ok (duplicate s)" using k by (simp add: duplicate_eq [OF va] log_ok_def segments_present_def va)
  show "holds log_ok (half s)" using k by (simp add: half_eq [OF va] log_ok_def segments_present_def va)
  show "holds log_ok (interlace s)" using k by (simp add: interlace_eq [OF va] log_ok_def segments_present_def va)
qed

lemma invariant_log_ok: "invariant log_ok"
  unfolding invariant_def admission_preserves_def
proof (intro conjI allI impI)
  show "pump_preserves log_ok" by (rule pump_preserves_log_ok)
next
  fix s and f :: write_frame assume "log_ok s \<and> audio_data f = []"
  then show "holds log_ok (push_back_video (fst (new_frame f s)) (snd (new_frame f s)))"
    by (auto simp: log_ok_def segments_present_def push_back_video_def new_frame_def front_def split: list.splits)
next
  fix s samples assume "log_ok s"
  then show "holds log_ok (push_back_audio samples s)"
    by (auto simp: log_ok_def segments_present_def push_back_audio_def Let_def front_def split: list.splits)
next
  fix s vf assume "log_ok s \<and> display_mode s = Invalid"
  then show "log_ok (decide_display_mode vf s)"
    by (simp add: log_ok_def segments_present_def decide_display_mode_def Let_def)
next
  fix s ys assume "log_ok s"
  then show "holds log_ok (push_video None ys s)"
    by (simp add: log_ok_def segments_present_def push_video_def)
next
  fix s s' assume "log_ok s \<and> push_audio None s = Done s'"
  then show "log_ok s'"
    by (auto simp: log_ok_def segments_present_def push_audio_def split: if_splits)
next
  fix s frame s' assume "log_ok s \<and> pop s = Inr (frame, s')"
  then show "log_ok s'"
    by (auto simp: log_ok_def segments_present_def pop_def split: list.splits)
qed


lemma gone_truncate: "gone D s \<Longrightarrow> gone D (truncate s)"
  by (cases "video_streams s"; cases "audio_streams s")
     (auto simp: gone_def segments_present_def truncate_def Let_def queued_def)

lemma pump_preserves_gone: "pump_preserves (gone D)"
  unfolding pump_preserves_def
proof (intro conjI allI impI)
  fix s assume k: "gone D s"
  then obtain v vs a as where va: "video_streams s = v # vs" "audio_streams s = a # as"
    by (auto simp: gone_def segments_present_def neq_Nil_conv)
  show "segments_present s" using k by (simp add: gone_def)
  show "gone D (truncate s)" using k by (rule gone_truncate)
  show "holds (gone D) (simple s)" using k
    by (cases v) (auto simp: simple_eq [OF va] gone_def segments_present_def va queued_def)
  show "holds (gone D) (duplicate s)" using k
    by (cases v) (auto simp: duplicate_eq [OF va] gone_def segments_present_def va queued_def)
  show "holds (gone D) (half s)" using k
    by (cases v; cases "tl v") (auto simp: half_eq [OF va] gone_def segments_present_def va queued_def)
  show "holds (gone D) (interlace s)" using k
    by (cases v; cases "tl v") (auto simp: interlace_eq [OF va] gone_def segments_present_def va queued_def)
qed

lemma admission_preserves_gone: "admission_preserves (gone D)"
  unfolding admission_preserves_def
proof (intro conjI allI impI)
  show "pump_preserves (gone D)" by (rule pump_preserves_gone)
next
  fix s and f :: write_frame assume "gone D s \<and> audio_data f = []"
  then have g: "gone D s" by simp
  then have ne: "video_streams s \<noteq> []" by (simp add: gone_def segments_present_def)
  have "gone D (s\<lparr>store := store s @ [f],
          video_streams := butlast (video_streams s) @ [last (video_streams s) @ [length (store s)]],
          video_frame_count := video_frame_count s + 1\<rparr>)"
    using g ne by (auto simp: gone_def segments_present_def concat_push_back queued_def)
  then show "holds (gone D) (push_back_video (fst (new_frame f s)) (snd (new_frame f s)))"
    using ne by (auto simp: push_back_video_def new_frame_def front_def split: list.splits)
next
  fix s samples assume "gone D s"
  then show "holds (gone D) (push_back_audio samples s)"
    by (auto simp: gone_def segments_present_def push_back_audio_def Let_def front_def split: list.splits)
qed

lemma invariant_gone: "invariant (gone D)"
  unfolding invariant_def
proof (intro conjI allI impI)
  show "admission_preserves (gone D)" by (rule admission_preserves_gone)
next
  fix s vf assume "gone D s \<and> display_mode s = Invalid"
  then show "gone D (decide_display_mode vf s)"
    by (simp add: gone_def segments_present_def decide_display_mode_def Let_def)
next
  fix s ys assume "gone D s"
  then show "holds (gone D) (push_video None ys s)"
    by (simp add: gone_def segments_present_def push_video_def queued_def)
next
  fix s s' assume "gone D s \<and> push_audio None s = Done s'"
  then show "gone D s'"
    by (auto simp: gone_def segments_present_def push_audio_def split: if_splits)
next
  fix s frame s' assume "gone D s \<and> pop s = Inr (frame, s')"
  then show "gone D s'"
    by (auto simp: gone_def segments_present_def pop_def split: list.splits)
qed

text \<open>The pump entered with an empty oldest segment forgets the oldest video segment.\<close>

lemma gone_after_drop:
  assumes ok: "frames_ok desc t"
    and more: "length (video_streams t) > 1" "length (audio_streams t) > 1"
    and empty: "hd (video_streams t) = [] \<or> hd (audio_streams t) = []"
  shows "gone (set (hd (video_streams t))) (truncate t)"
proof -
  from more obtain v vs a as where va: "video_streams t = v # vs" "audio_streams t = a # as"
    and ne: "vs \<noteq> []" "as \<noteq> []"
    by (cases "video_streams t"; cases "audio_streams t") auto
  from ok va have inv: "frames_inv (audio_samples_per_frame desc) (v @ concat vs) (frame_buffer t) (store t)"
    by (simp add: frames_ok_def queued_def)
  have tr: "video_streams (truncate t) = vs" "audio_streams (truncate t) = as"
    using va ne empty by (auto simp: truncate_def Let_def)
  from inv have "\<forall>a \<in> set v. a < length (store t) \<and> a \<notin> set (concat vs)
                    \<and> a \<notin> set (addrs (frame_buffer t))"
    by (auto simp: frames_inv_def silent_def)
  then show ?thesis using va ne tr
    by (auto simp: gone_def segments_present_def queued_def)
qed


lemma reachable_frames_ok:
  "run xs (implementation fps_in desc auto) = Some s \<Longrightarrow> frames_ok desc s"
  by (rule run_invariant [OF invariant_frames_ok])
     (simp_all add: frames_ok_def segments_present_def queued_def frames_inv_def implementation_def)

lemma first_pump_gone:
  assumes ok: "frames_ok desc t"
    and more: "length (video_streams t) > 1" "length (audio_streams t) > 1"
    and empty: "hd (video_streams t) = [] \<or> hd (audio_streams t) = []"
    and k: "\<And>u. gone (set (hd (video_streams t))) u \<Longrightarrow> holds (gone (set (hd (video_streams t)))) (k u)"
  shows "holds (gone (set (hd (video_streams t)))) (on_done (put_frames t) k)"
proof (rule holds_on_done)
  show "holds (gone (set (hd (video_streams t)))) (put_frames t)"
    by (rule holds_put_frames_truncated [OF pump_preserves_gone gone_after_drop [OF ok more empty]])
qed (rule k)

text \<open>The state in which a pushing operation first enters the pump.\<close>

lemma push_back_audio_Done:
  "audio_streams s \<noteq> [] \<Longrightarrow>
   push_back_audio samples s =
     Done (s\<lparr>audio_sample_count := audio_sample_count s + length samples,
             audio_streams := butlast (audio_streams s) @ [last (audio_streams s) @ samples]\<rparr>)"
  by (auto simp: push_back_audio_def Let_def front_def split: list.splits)

lemma push_back_video_Done:
  "video_streams s \<noteq> [] \<Longrightarrow>
   push_back_video (fst (new_frame f s)) (snd (new_frame f s)) =
     Done (s\<lparr>store := store s @ [f],
             video_streams := butlast (video_streams s) @ [last (video_streams s) @ [length (store s)]],
             video_frame_count := video_frame_count s + 1\<rparr>)"
  by (auto simp: push_back_video_def new_frame_def front_def split: list.splits)

lemma hd_butlast_append: "length xs > 1 \<Longrightarrow> hd (butlast xs @ ys) = hd xs"
  by (cases xs; cases "tl xs") auto

lemma holds_Done: "holds P r \<Longrightarrow> r = Done t \<Longrightarrow> P t"
  by simp

lemma gone_after_pumping_step:
  assumes ok: "frames_ok desc s"
    and more: "length (video_streams s) > 1" "length (audio_streams s) > 1"
    and empty: "hd (video_streams s) = [] \<or> hd (audio_streams s) = []"
    and x: "pumps x"
  shows "holds (gone (set (hd (video_streams s)))) (step x s)"
proof -
  let ?D = "set (hd (video_streams s))"
  from more have ne: "video_streams s \<noteq> []" "audio_streams s \<noteq> []" by auto
  have audio: "holds (gone ?D) (on_done (push_back_audio samples u) put_frames)"
    if u: "frames_ok desc u" "video_streams u = video_streams s" "audio_streams u = audio_streams s"
    for samples u
  proof -
    let ?t = "u\<lparr>audio_sample_count := audio_sample_count u + length samples,
             audio_streams := butlast (audio_streams u) @ [last (audio_streams u) @ samples]\<rparr>"
    have d: "push_back_audio samples u = Done ?t" using ne u by (intro push_back_audio_Done) simp
    have "holds (frames_ok desc) (push_back_audio samples u)"
      using admission_preserves_frames_ok u(1) unfolding admission_preserves_def by blast
    then have okt: "frames_ok desc ?t" using d by (rule holds_Done)
    have "holds (gone (set (hd (video_streams ?t)))) (on_done (put_frames ?t) Done)"
      using more empty u by (intro first_pump_gone [OF okt]) (simp_all add: hd_butlast_append)
    moreover have "on_done (put_frames ?t) Done = put_frames ?t" by (cases "put_frames ?t") simp_all
    ultimately show ?thesis using d u by simp
  qed
  have video: "holds (gone ?D) (on_done (push_back_video (fst (new_frame f u)) (snd (new_frame f u)))
                  (\<lambda>t. on_done (put_frames t) k))"
    if u: "frames_ok desc u" "video_streams u = video_streams s" "audio_streams u = audio_streams s"
      and f: "audio_data f = []"
      and k: "\<And>w. gone ?D w \<Longrightarrow> holds (gone ?D) (k w)"
    for f u k
  proof -
    let ?t = "u\<lparr>store := store u @ [f],
             video_streams := butlast (video_streams u) @ [last (video_streams u) @ [length (store u)]],
             video_frame_count := video_frame_count u + 1\<rparr>"
    have d: "push_back_video (fst (new_frame f u)) (snd (new_frame f u)) = Done ?t"
      using ne u by (intro push_back_video_Done) simp
    have "holds (frames_ok desc) (push_back_video (fst (new_frame f u)) (snd (new_frame f u)))"
      using admission_preserves_frames_ok u(1) f unfolding admission_preserves_def by blast
    then have okt: "frames_ok desc ?t" using d by (rule holds_Done)
    have hd: "hd (video_streams ?t) = hd (video_streams s)"
      using more u by (simp add: hd_butlast_append)
    have "holds (gone (set (hd (video_streams ?t)))) (on_done (put_frames ?t) k)"
      using more empty u k by (intro first_pump_gone [OF okt]) (simp_all add: hd_butlast_append)
    then show ?thesis using d hd by simp
  qed
  show ?thesis
  proof (cases x)
    case (Push_audio smp)
    with x obtain samples where "smp = Some samples" by (cases smp) auto
    with Push_audio audio [OF ok refl refl] show ?thesis by (simp add: push_audio_def)
  next
    case Pop
    with x show ?thesis by simp
  next
    case (Push_video vfo ys)
    with x obtain vf where vf: "vfo = Some vf" by (cases vfo) auto
    show ?thesis
    proof (cases "data0 vf = None")
      case True
      have "holds (gone ?D) (on_done (push_back_video (fst (new_frame empty_write_frame s))
               (snd (new_frame empty_write_frame s))) (\<lambda>t. on_done (put_frames t) Done))"
        by (rule video [OF ok refl refl]) (simp_all add: empty_write_frame_def)
      moreover have "(\<lambda>t. on_done (put_frames t) Done) = put_frames"
        by (rule ext) (case_tac "put_frames t", simp_all)
      ultimately show ?thesis using True Push_video vf
        by (simp add: push_video_def and_then_def case_prod_beta)
    next
      case False
      let ?u = "if display_mode s = Invalid then decide_display_mode vf s else s"
      have oku: "frames_ok desc ?u"
        using ok by (simp add: frames_ok_def segments_present_def decide_display_mode_def Let_def)
      have su: "video_streams ?u = video_streams s" "audio_streams ?u = audio_streams s"
        by (simp_all add: decide_display_mode_def Let_def)
      from False x Push_video vf have "ys \<noteq> []" by auto
      then have "execute (filter_desc ?u) vf ys \<noteq> []" by (simp add: execute_def)
      then obtain z zs where z: "execute (filter_desc ?u) vf ys = z # zs"
        by (cases "execute (filter_desc ?u) vf ys") auto
      let ?f = "fix_field_order (fmt_mode (format_desc ?u)) (make_write_frame z)"
      have "holds (gone ?D) (on_done (push_back_video (fst (new_frame ?f ?u)) (snd (new_frame ?f ?u)))
               (\<lambda>t. on_done (put_frames t) (push_filtered zs)))"
        by (rule video [OF oku su])
           (simp_all add: fix_field_order_def make_write_frame_def
              holds_push_filtered [OF admission_preserves_gone])
      then have "holds (gone ?D) (push_filtered (z # zs) ?u)"
        by (simp add: and_then_def case_prod_beta)
      then show ?thesis using False Push_video vf z
        by (auto simp: push_video_def Let_def)
    qed
  qed
qed


lemma strip_eqD: "strip u = strip w \<Longrightarrow> u = w\<lparr>logged := logged u\<rparr>"
  by (cases u; cases w) (simp add: strip_def)

lemma strip_logged [simp]: "strip (s\<lparr>logged := l\<rparr>) = strip s"
  by (simp add: strip_def)

lemma strip_truncate_logged: "strip (truncate (s\<lparr>logged := l\<rparr>)) = strip (truncate s)"
  by (auto simp: truncate_def Let_def strip_def)

lemma combiner_logged:
  "strip_result (simple (s\<lparr>logged := l\<rparr>)) = strip_result (simple s)"
  "strip_result (duplicate (s\<lparr>logged := l\<rparr>)) = strip_result (duplicate s)"
  "strip_result (half (s\<lparr>logged := l\<rparr>)) = strip_result (half s)"
  "strip_result (interlace (s\<lparr>logged := l\<rparr>)) = strip_result (interlace s)"
proof -
  show "strip_result (simple (s\<lparr>logged := l\<rparr>)) = strip_result (simple s)"
  proof (cases "video_streams s")
    case Nil then show ?thesis by (simp add: simple_def front_def)
  next
    case (Cons v vs)
    show ?thesis
    proof (cases "audio_streams s")
      case Nil then show ?thesis using Cons by (simp add: simple_def front_def)
    next
      case (Cons a as)
      have 1: "video_streams (s\<lparr>logged := l\<rparr>) = v # vs" "audio_streams (s\<lparr>logged := l\<rparr>) = a # as"
        using \<open>video_streams s = v # vs\<close> Cons by simp_all
      show ?thesis
        by (simp add: simple_eq [OF 1] simple_eq [OF \<open>video_streams s = v # vs\<close> Cons] strip_def)
    qed
  qed
  show "strip_result (duplicate (s\<lparr>logged := l\<rparr>)) = strip_result (duplicate s)"
  proof (cases "video_streams s")
    case Nil then show ?thesis by (simp add: duplicate_def front_def)
  next
    case (Cons v vs)
    show ?thesis
    proof (cases "audio_streams s")
      case Nil then show ?thesis using Cons by (simp add: duplicate_def front_def)
    next
      case (Cons a as)
      have 1: "video_streams (s\<lparr>logged := l\<rparr>) = v # vs" "audio_streams (s\<lparr>logged := l\<rparr>) = a # as"
        using \<open>video_streams s = v # vs\<close> Cons by simp_all
      show ?thesis
        by (simp add: duplicate_eq [OF 1] duplicate_eq [OF \<open>video_streams s = v # vs\<close> Cons] strip_def)
    qed
  qed
  show "strip_result (half (s\<lparr>logged := l\<rparr>)) = strip_result (half s)"
  proof (cases "video_streams s")
    case Nil then show ?thesis by (simp add: half_def front_def)
  next
    case (Cons v vs)
    show ?thesis
    proof (cases "audio_streams s")
      case Nil then show ?thesis using Cons by (simp add: half_def front_def)
    next
      case (Cons a as)
      have 1: "video_streams (s\<lparr>logged := l\<rparr>) = v # vs" "audio_streams (s\<lparr>logged := l\<rparr>) = a # as"
        using \<open>video_streams s = v # vs\<close> Cons by simp_all
      show ?thesis
        by (simp add: half_eq [OF 1] half_eq [OF \<open>video_streams s = v # vs\<close> Cons] strip_def)
    qed
  qed
  show "strip_result (interlace (s\<lparr>logged := l\<rparr>)) = strip_result (interlace s)"
  proof (cases "video_streams s")
    case Nil then show ?thesis by (simp add: interlace_def front_def)
  next
    case (Cons v vs)
    show ?thesis
    proof (cases "audio_streams s")
      case Nil then show ?thesis using Cons by (simp add: interlace_def front_def)
    next
      case (Cons a as)
      have 1: "video_streams (s\<lparr>logged := l\<rparr>) = v # vs" "audio_streams (s\<lparr>logged := l\<rparr>) = a # as"
        using \<open>video_streams s = v # vs\<close> Cons by simp_all
      show ?thesis
        by (simp add: interlace_eq [OF 1] interlace_eq [OF \<open>video_streams s = v # vs\<close> Cons] strip_def)
    qed
  qed
qed

text \<open>What follows the drop in \<^verbatim>\<open>put_frames\<close> does not read the log.\<close>

lemma put_frames_after_truncate:
  assumes "strip (truncate s) = strip (truncate t)"
  shows "strip_result (put_frames s) = strip_result (put_frames t)"
proof -
  let ?u = "truncate s" and ?w = "truncate t"
  from strip_eqD [OF assms] obtain l where u: "?u = ?w\<lparr>logged := l\<rparr>" by blast
  have d: "strip_result (dispatch (display_mode ?w) (?w\<lparr>logged := l\<rparr>))
             = strip_result (dispatch (display_mode ?w) ?w)"
    by (cases "display_mode ?w") (simp_all add: combiner_logged)
  show ?thesis
    unfolding put_frames_def Let_def u using d
    by (cases "video_streams ?w"; cases "audio_streams ?w") (auto simp: front_def strip_def)
qed

lemma put_frames_logged: "strip_result (put_frames (s\<lparr>logged := l\<rparr>)) = strip_result (put_frames s)"
  by (rule put_frames_after_truncate) (rule strip_truncate_logged)


lemma log_blindD: "log_blind k \<Longrightarrow> strip u = strip w \<Longrightarrow> strip_result (k u) = strip_result (k w)"
  using strip_eqD [of u w] unfolding log_blind_def by metis

lemma on_done_strip:
  assumes "strip_result r1 = strip_result r2" and "log_blind k"
  shows "strip_result (on_done r1 k) = strip_result (on_done r2 k)"
  using assms by (cases r1; cases r2) (auto dest: log_blindD)

lemma log_blind_on_done:
  assumes "log_blind f" and "log_blind k"
  shows "log_blind (\<lambda>s. on_done (f s) k)"
  unfolding log_blind_def
proof (intro allI)
  fix u l
  from assms(1) have "strip_result (f (u\<lparr>logged := l\<rparr>)) = strip_result (f u)"
    by (simp add: log_blind_def)
  then show "strip_result (on_done (f (u\<lparr>logged := l\<rparr>)) k) = strip_result (on_done (f u) k)"
    using assms(2) by (rule on_done_strip)
qed

lemma log_blind_put_frames: "log_blind put_frames"
  by (simp add: log_blind_def put_frames_logged)

lemma log_blind_Done: "log_blind Done"
  by (simp add: log_blind_def)

lemma log_blind_enqueue:
  assumes "log_blind k" and f: "\<And>s l. f (s\<lparr>logged := l\<rparr>) = f s"
  shows "log_blind (\<lambda>s. on_done (push_back_video (fst (new_frame (f s) s)) (snd (new_frame (f s) s))) k)"
proof -
  have "log_blind (\<lambda>s. push_back_video (fst (new_frame (f s) s)) (snd (new_frame (f s) s)))"
    unfolding log_blind_def
    by (auto simp: f push_back_video_def new_frame_def front_def strip_def split: list.splits)
  then show ?thesis using assms(1) by (rule log_blind_on_done)
qed

lemma log_blind_push_filtered: "log_blind (push_filtered xs)"
proof (induction xs)
  case Nil
  then show ?case by (simp add: log_blind_def)
next
  case (Cons av rest)
  have "log_blind (\<lambda>s. on_done (put_frames s) (push_filtered rest))"
    by (rule log_blind_on_done [OF log_blind_put_frames Cons])
  then have "log_blind (\<lambda>s. on_done (push_back_video
       (fst (new_frame (fix_field_order (fmt_mode (format_desc s)) (make_write_frame av)) s))
       (snd (new_frame (fix_field_order (fmt_mode (format_desc s)) (make_write_frame av)) s)))
       (\<lambda>s2. on_done (put_frames s2) (push_filtered rest)))"
    by (rule log_blind_enqueue) simp
  then show ?case by (simp add: log_blind_def and_then_def case_prod_beta)
qed

lemma strip_decide_logged:
  "strip (decide_display_mode vf (s\<lparr>logged := l\<rparr>)) = strip (decide_display_mode vf s)"
  by (simp add: decide_display_mode_def Let_def strip_def)

lemma decide_fields [simp]:
  "video_streams (decide_display_mode vf s) = video_streams s"
  "audio_streams (decide_display_mode vf s) = audio_streams s"
  "format_desc (decide_display_mode vf s) = format_desc s"
  "store (decide_display_mode vf s) = store s"
  "frame_buffer (decide_display_mode vf s) = frame_buffer s"
  by (simp_all add: decide_display_mode_def Let_def)

lemma log_blind_step: "log_blind (step x)"
proof (cases x)
  case (Push_video vfo ys)
  show ?thesis
  proof (cases vfo)
    case None
    with Push_video show ?thesis by (simp add: log_blind_def push_video_def strip_def)
  next
    case (Some vf)
    show ?thesis
    proof (cases "data0 vf = None")
      case True
      have "log_blind (\<lambda>s. on_done (push_back_video (fst (new_frame empty_write_frame s))
              (snd (new_frame empty_write_frame s))) put_frames)"
        by (rule log_blind_enqueue [OF log_blind_put_frames]) simp
      with True Push_video Some show ?thesis
        by (simp add: log_blind_def push_video_def and_then_def case_prod_beta)
    next
      case False
      show ?thesis unfolding log_blind_def
      proof (intro allI)
        fix u l
        let ?d = "\<lambda>s. if display_mode s = Invalid then decide_display_mode vf s else s"
        have 1: "strip (?d (u\<lparr>logged := l\<rparr>)) = strip (?d u)"
          by (simp add: strip_decide_logged)
        have f: "filter_desc (?d (u\<lparr>logged := l\<rparr>)) = filter_desc (?d u)"
          by (simp add: decide_display_mode_def Let_def)
        have "strip_result (push_filtered (execute (filter_desc (?d u)) vf ys) (?d (u\<lparr>logged := l\<rparr>)))
            = strip_result (push_filtered (execute (filter_desc (?d u)) vf ys) (?d u))"
          by (rule log_blindD [OF log_blind_push_filtered 1])
        then show "strip_result (step x (u\<lparr>logged := l\<rparr>)) = strip_result (step x u)"
          using False Push_video Some f by (auto simp: push_video_def Let_def)
      qed
    qed
  qed
next
  case (Push_audio smp)
  show ?thesis
  proof (cases smp)
    case None
    with Push_audio show ?thesis by (simp add: log_blind_def push_audio_def strip_def)
  next
    case (Some samples)
    have "log_blind (push_back_audio samples)"
      unfolding log_blind_def
      by (auto simp: push_back_audio_def Let_def front_def strip_def split: list.splits)
    then have "log_blind (\<lambda>s. on_done (push_back_audio samples s) put_frames)"
      using log_blind_put_frames by (rule log_blind_on_done)
    with Push_audio Some show ?thesis by (simp add: log_blind_def push_audio_def)
  qed
next
  case Pop
  then show ?thesis
    by (auto simp: log_blind_def pop_def and_then_def strip_def split: list.splits)
qed

lemma state_after_strip:
  assumes "strip_result r1 = strip_result r2"
  shows "map_option strip (state_after r1) = map_option strip (state_after r2)"
  using assms by (cases r1; cases r2) auto

lemma run_strip:
  "strip s = strip t \<Longrightarrow> map_option strip (run xs s) = map_option strip (run xs t)"
proof (induction xs arbitrary: s t)
  case Nil
  then show ?case by simp
next
  case (Cons x xs)
  have "strip_result (step x s) = strip_result (step x t)"
    by (rule log_blindD [OF log_blind_step Cons.prems])
  then have eq: "map_option strip (state_after (step x s)) = map_option strip (state_after (step x t))"
    by (rule state_after_strip)
  show ?case
  proof (cases "state_after (step x s)")
    case None
    with eq show ?thesis by simp
  next
    case (Some s1)
    with eq obtain t1 where t1: "state_after (step x t) = Some t1" and st: "strip s1 = strip t1"
      by (cases "state_after (step x t)") auto
    from Cons.IH [OF st] Some t1 show ?thesis by simp
  qed
qed


lemma pump_forgets_audio:
  assumes more: "length (video_streams t) > 1" "length (audio_streams t) > 1"
    and empty: "hd (video_streams t) = []" and k: "log_blind k"
  shows "strip_result (on_done (put_frames (with_oldest_audio smp t)) k)
           = strip_result (on_done (put_frames t) k)"
proof -
  have "strip (truncate (with_oldest_audio smp t)) = strip (truncate t)"
    using more empty by (simp add: truncate_def Let_def strip_def with_oldest_audio_def)
  then have "strip_result (put_frames (with_oldest_audio smp t)) = strip_result (put_frames t)"
    by (rule put_frames_after_truncate)
  then show ?thesis using k by (rule on_done_strip)
qed

lemma push_back_audio_oldest:
  assumes "length (audio_streams s) > 1"
  shows "push_back_audio samples (with_oldest_audio smp s) =
           Done (with_oldest_audio smp
             (s\<lparr>audio_sample_count := audio_sample_count s + length samples,
                audio_streams := butlast (audio_streams s) @ [last (audio_streams s) @ samples]\<rparr>))"
  using assms
  by (cases "audio_streams s"; cases "tl (audio_streams s)")
     (auto simp: push_back_audio_def Let_def front_def with_oldest_audio_def)

lemma push_back_video_oldest:
  assumes "video_streams s \<noteq> []"
  shows "push_back_video (fst (new_frame f (with_oldest_audio smp s)))
             (snd (new_frame f (with_oldest_audio smp s))) =
           Done (with_oldest_audio smp
             (s\<lparr>store := store s @ [f],
                video_streams := butlast (video_streams s) @ [last (video_streams s) @ [length (store s)]],
                video_frame_count := video_frame_count s + 1\<rparr>))"
  using assms
  by (auto simp: push_back_video_def new_frame_def front_def with_oldest_audio_def split: list.splits)

lemma on_done_Done: "on_done r Done = r"
  by (cases r) simp_all

lemma step_forgets_audio:
  assumes more: "length (video_streams s) > 1" "length (audio_streams s) > 1"
    and empty: "hd (video_streams s) = []" and x: "pumps x"
  shows "strip_result (step x (with_oldest_audio smp s)) = strip_result (step x s)"
proof -
  from more have ne: "video_streams s \<noteq> []" "audio_streams s \<noteq> []" by auto
  have video: "strip_result (on_done (push_back_video (fst (new_frame f (with_oldest_audio smp u)))
                   (snd (new_frame f (with_oldest_audio smp u)))) (\<lambda>t. on_done (put_frames t) k))
             = strip_result (on_done (push_back_video (fst (new_frame f u)) (snd (new_frame f u)))
                   (\<lambda>t. on_done (put_frames t) k))"
    if u: "video_streams u = video_streams s" "audio_streams u = audio_streams s"
      and k: "log_blind k"
    for f u k
  proof -
    let ?t = "u\<lparr>store := store u @ [f],
             video_streams := butlast (video_streams u) @ [last (video_streams u) @ [length (store u)]],
             video_frame_count := video_frame_count u + 1\<rparr>"
    have "strip_result (on_done (put_frames (with_oldest_audio smp ?t)) k)
           = strip_result (on_done (put_frames ?t) k)"
      using more empty u k by (intro pump_forgets_audio) (simp_all add: hd_butlast_append)
    then show ?thesis
      using ne u by (simp add: push_back_video_oldest push_back_video_Done)
  qed
  show ?thesis
  proof (cases x)
    case (Push_audio sm)
    with x obtain samples where sm: "sm = Some samples" by (cases sm) auto
    let ?t = "s\<lparr>audio_sample_count := audio_sample_count s + length samples,
                audio_streams := butlast (audio_streams s) @ [last (audio_streams s) @ samples]\<rparr>"
    have "strip_result (on_done (put_frames (with_oldest_audio smp ?t)) Done)
           = strip_result (on_done (put_frames ?t) Done)"
      using more empty by (intro pump_forgets_audio log_blind_Done) (simp_all add: hd_butlast_append)
    then show ?thesis
      using Push_audio sm more ne
      by (simp add: push_audio_def push_back_audio_oldest push_back_audio_Done on_done_Done)
  next
    case Pop
    with x show ?thesis by simp
  next
    case (Push_video vfo ys)
    with x obtain vf where vf: "vfo = Some vf" by (cases vfo) auto
    show ?thesis
    proof (cases "data0 vf = None")
      case True
      have "strip_result (on_done (push_back_video (fst (new_frame empty_write_frame (with_oldest_audio smp s)))
                   (snd (new_frame empty_write_frame (with_oldest_audio smp s)))) (\<lambda>t. on_done (put_frames t) Done))
             = strip_result (on_done (push_back_video (fst (new_frame empty_write_frame s))
                   (snd (new_frame empty_write_frame s))) (\<lambda>t. on_done (put_frames t) Done))"
        by (rule video [OF refl refl log_blind_Done])
      then show ?thesis using True Push_video vf
        by (simp add: push_video_def and_then_def case_prod_beta on_done_Done)
    next
      case False
      let ?d = "\<lambda>s. if display_mode s = Invalid then decide_display_mode vf s else s"
      have d: "?d (with_oldest_audio smp s) = with_oldest_audio smp (?d s)"
        by (simp add: decide_display_mode_def Let_def with_oldest_audio_def)
      have fd: "filter_desc (with_oldest_audio smp (?d s)) = filter_desc (?d s)"
        "format_desc (with_oldest_audio smp (?d s)) = format_desc (?d s)"
        by (simp_all add: with_oldest_audio_def)
      from False x Push_video vf have "ys \<noteq> []" by auto
      then have "execute (filter_desc (?d s)) vf ys \<noteq> []" by (simp add: execute_def)
      then obtain z zs where z: "execute (filter_desc (?d s)) vf ys = z # zs"
        by (cases "execute (filter_desc (?d s)) vf ys") auto
      let ?f = "fix_field_order (fmt_mode (format_desc (?d s))) (make_write_frame z)"
      have "strip_result (on_done (push_back_video (fst (new_frame ?f (with_oldest_audio smp (?d s))))
                   (snd (new_frame ?f (with_oldest_audio smp (?d s))))) (\<lambda>t. on_done (put_frames t) (push_filtered zs)))
             = strip_result (on_done (push_back_video (fst (new_frame ?f (?d s))) (snd (new_frame ?f (?d s))))
                   (\<lambda>t. on_done (put_frames t) (push_filtered zs)))"
        by (rule video [OF _ _ log_blind_push_filtered]) simp_all
      then have "strip_result (push_filtered (z # zs) (with_oldest_audio smp (?d s)))
             = strip_result (push_filtered (z # zs) (?d s))"
        by (simp add: and_then_def case_prod_beta fd)
      moreover have "step x (with_oldest_audio smp s) = push_filtered (z # zs) (with_oldest_audio smp (?d s))"
        using False Push_video vf z d fd
        by (auto simp: push_video_def Let_def with_oldest_audio_def)
      moreover have "step x s = push_filtered (z # zs) (?d s)"
        using False Push_video vf z by (auto simp: push_video_def Let_def)
      ultimately show ?thesis by simp
    qed
  qed
qed

text \<open>
  The claim C5 as stated fails in its last part: with one picture left in the oldest
  video segment and an empty oldest audio segment, the pump drops the pair and records
  the warning \<open>Log_truncating 1 0\<close>, although the audio side had no leftover data.
\<close>

theorem truncation_warning_counterexample:
  "hd (video_streams (the (run [Push_video (Some picture0) [], Push_video None [], Push_audio None]
       (implementation 25 format0 False)))) = [0]
   \<and> hd (audio_streams (the (run [Push_video (Some picture0) [], Push_video None [], Push_audio None]
       (implementation 25 format0 False)))) = []
   \<and> logged (the (run [Push_video (Some picture0) [], Push_video None [], Push_audio None,
       Push_audio (Some [1])] (implementation 25 format0 False)))
     = logged (the (run [Push_video (Some picture0) [], Push_video None [], Push_audio None]
       (implementation 25 format0 False))) @ [Log_truncating 1 0]"
  by (simp add: muxer_defs format0_def picture0_def)

text \<open>
  Claim C5, amended. Let \<open>s\<close> be reached from a new instance, with more than one segment
  on each side and an empty oldest segment on one side, and let an operation that runs
  the pump, followed by any further operations, lead to \<open>s'\<close>. Then the counters of \<open>s\<close>
  are the sizes of the newest segments (zero when a reset opened them); no picture of
  the oldest video segment of \<open>s\<close> is referred to by an output frame of \<open>s'\<close>; when the
  oldest video segment is empty, replacing the samples of the oldest audio segment by
  any others leads to the same state \<open>s'\<close> up to the log; and every truncation warning
  recorded reports leftover data on exactly one side.
\<close>

theorem truncation:
  assumes reach: "run xs (implementation fps_in desc auto) = Some s"
    and more: "length (video_streams s) > 1" "length (audio_streams s) > 1"
    and empty: "hd (video_streams s) = [] \<or> hd (audio_streams s) = []"
    and x: "pumps x"
    and after: "run (x # ys) s = Some s'"
  shows "video_frame_count s = length (last (video_streams s))
       \<and> audio_sample_count s = length (last (audio_streams s))
       \<and> set (hd (video_streams s)) \<inter> set (addrs (frame_buffer s')) = {}
       \<and> map_option strip
            (run (x # ys)
               (with_oldest_audio
                  (if hd (video_streams s) = [] then samples else hd (audio_streams s)) s))
           = Some (strip s')
       \<and> list_all one_sided (logged s')"
proof -
  have init: "counts_ok (implementation fps_in desc auto)" "log_ok (implementation fps_in desc auto)"
    by (simp_all add: counts_ok_def log_ok_def segments_present_def implementation_def)
  have ok: "frames_ok desc s" using reach by (rule reachable_frames_ok)
  have c: "counts_ok s" using init(1) reach by (rule run_invariant [OF invariant_counts_ok])
  have l: "log_ok s" using init(2) reach by (rule run_invariant [OF invariant_log_ok])
  from after obtain s1 where s1: "state_after (step x s) = Some s1" and r: "run ys s1 = Some s'"
    by (auto split: option.splits)
  have a: "video_frame_count s = length (last (video_streams s))"
    "audio_sample_count s = length (last (audio_streams s))"
    using c more by (simp_all add: counts_ok_def)
  have "holds (gone (set (hd (video_streams s)))) (step x s)"
    using ok more empty x by (rule gone_after_pumping_step)
  with s1 have "gone (set (hd (video_streams s))) s1" by (cases "step x s") simp_all
  then have "gone (set (hd (video_streams s))) s'"
    using r by (rule run_invariant [OF invariant_gone])
  then have b: "set (hd (video_streams s)) \<inter> set (addrs (frame_buffer s')) = {}"
    by (auto simp: gone_def)
  let ?smp = "if hd (video_streams s) = [] then samples else hd (audio_streams s)"
  have n: "map_option strip (run (x # ys) (with_oldest_audio ?smp s)) = Some (strip s')"
  proof (cases "hd (video_streams s) = []")
    case True
    have "strip_result (step x (with_oldest_audio samples s)) = strip_result (step x s)"
      using more True x by (rule step_forgets_audio)
    then have "map_option strip (state_after (step x (with_oldest_audio samples s)))
                = map_option strip (state_after (step x s))"
      by (rule state_after_strip)
    with s1 obtain t1 where t1: "state_after (step x (with_oldest_audio samples s)) = Some t1"
      and st: "strip t1 = strip s1"
      by (cases "state_after (step x (with_oldest_audio samples s))") auto
    from run_strip [OF st, of ys] r have "map_option strip (run ys t1) = Some (strip s')" by simp
    with t1 True show ?thesis by simp
  next
    case False
    from more have "with_oldest_audio (hd (audio_streams s)) s = s"
      by (cases "audio_streams s") (simp_all add: with_oldest_audio_def)
    with False after show ?thesis by simp
  qed
  have "log_ok s1" by (rule after_step [OF invariant_log_ok l s1])
  then have "log_ok s'" using r by (rule run_invariant [OF invariant_log_ok])
  then have d: "list_all one_sided (logged s')" by (simp add: log_ok_def)
  from a b n d show ?thesis by blast
qed

theorem truncation_witness:
  "set [0] \<inter> set (addrs (frame_buffer (the (run [Push_audio (Some [1, 2]), Push_video (Some picture0) []]
       (the (run [Push_video (Some picture0) [], Push_video None [], Push_audio None]
          (implementation 25 format0 False))))))) = {}
   \<and> frame_buffer (the (run [Push_audio (Some [1, 2]), Push_video (Some picture0) []]
       (the (run [Push_video (Some picture0) [], Push_video None [], Push_audio None]
          (implementation 25 format0 False))))) = [Frame 1]
   \<and> map_option strip (run [Push_video (Some picture0) [picture0], Push_audio (Some [1, 2])]
         (with_oldest_audio [9, 9, 9]
           (the (run [Push_audio (Some [7]), Push_audio None, Push_video None []]
              (implementation 25 format0 False)))))
     = map_option strip (run [Push_video (Some picture0) [picture0], Push_audio (Some [1, 2])]
           (the (run [Push_audio (Some [7]), Push_audio None, Push_video None []]
              (implementation 25 format0 False))))"
proof -
  let ?i = "implementation 25 format0 False"
  let ?xs1 = "[Push_video (Some picture0) [], Push_video None [], Push_audio None]"
  let ?s1 = "the (run ?xs1 ?i)"
  let ?r1 = "run [Push_audio (Some [1, 2]), Push_video (Some picture0) []] ?s1"
  have a1: "run ?xs1 ?i = Some ?s1" by (simp add: muxer_defs format0_def picture0_def)
  have b1: "length (video_streams ?s1) > 1" "length (audio_streams ?s1) > 1"
    "hd (video_streams ?s1) = [] \<or> hd (audio_streams ?s1) = []"
    by (simp_all add: muxer_defs format0_def picture0_def)
  have c1: "?r1 = Some (the ?r1)" by (simp add: muxer_defs format0_def picture0_def)
  have h1: "hd (video_streams ?s1) = [0]" by (simp add: muxer_defs format0_def picture0_def)
  have f1: "frame_buffer (the ?r1) = [Frame 1]" by (simp add: muxer_defs format0_def picture0_def)
  have p1: "pumps (Push_audio (Some [1, 2]))" by simp
  note t1 = truncation [OF a1 b1 p1 c1]
  let ?xs2 = "[Push_audio (Some [7]), Push_audio None, Push_video None []]"
  let ?s2 = "the (run ?xs2 ?i)"
  let ?r2 = "run [Push_video (Some picture0) [picture0], Push_audio (Some [1, 2])] ?s2"
  have a2: "run ?xs2 ?i = Some ?s2" by (simp add: muxer_defs format0_def picture0_def)
  have b2: "length (video_streams ?s2) > 1" "length (audio_streams ?s2) > 1"
    "hd (video_streams ?s2) = [] \<or> hd (audio_streams ?s2) = []"
    by (simp_all add: muxer_defs format0_def picture0_def)
  have c2: "?r2 = Some (the ?r2)" by (simp add: muxer_defs format0_def picture0_def)
  have h2: "hd (video_streams ?s2) = []" by (simp add: muxer_defs format0_def picture0_def)
  have p2: "pumps (Push_video (Some picture0) [picture0])" by simp
  note t2 = truncation [OF a2 b2 p2 c2, of "[9, 9, 9]"]
  from t1 h1 have 1: "set [0] \<inter> set (addrs (frame_buffer (the ?r1))) = {}" by simp
  from t2 h2 have 2: "map_option strip (run [Push_video (Some picture0) [picture0], Push_audio (Some [1, 2])]
         (with_oldest_audio [9, 9, 9] ?s2)) = Some (strip (the ?r2))" by simp
  have 3: "map_option strip ?r2 = Some (strip (the ?r2))" by (subst c2) simp
  from 2 3 have 4: "map_option strip (run [Push_video (Some picture0) [picture0], Push_audio (Some [1, 2])]
         (with_oldest_audio [9, 9, 9] ?s2)) = map_option strip ?r2" by (simp only:)
  from 1 f1 4 show ?thesis by blast
qed

end
